theory Spec2Isabelle
  imports Main
begin

section \<open>Values and errors\<close>

text \<open>
  The values a binding may hold. Python is dynamically typed, so the branches of
  \<^verbatim>\<open>encode.to_sql\<close> (\<^verbatim>\<open>isinstance\<close> tests) become the constructors of one datatype:
  \<^item> \<open>PyStr\<close>: a \<^verbatim>\<open>str\<close>;
  \<^item> \<open>PyInt\<close>: an \<^verbatim>\<open>int\<close> (unbounded), \<open>PyBool\<close>: a \<^verbatim>\<open>bool\<close>; both are
    \<^verbatim>\<open>numbers.Real\<close>;
  \<^item> \<open>PyFloat\<close>: any other \<^verbatim>\<open>numbers.Real\<close> (a \<^verbatim>\<open>float\<close>, a \<^verbatim>\<open>Fraction\<close>); the
    digits \<^verbatim>\<open>str\<close> prints for it are outside this development, so the value carries
    that text;
  \<^item> \<open>PyList\<close>: a \<^verbatim>\<open>list\<close>;
  \<^item> \<open>PyNone\<close>: \<^verbatim>\<open>None\<close>;
  \<^item> \<open>PyOther\<close>: an object of any other type (a tuple, a dict, bytes); the field is
    what \<^verbatim>\<open>len\<close> returns for it, when its type has a length.

  Strings are HOL strings; a character stands for the code point of the same number
  (U+0000 to U+00FF).
\<close>

datatype py_value =
    PyStr string
  | PyInt int
  | PyBool bool
  | PyFloat string
  | PyList "py_value list"
  | PyNone
  | PyOther "nat option"

text \<open>
  Every way the three modules can raise. \<^verbatim>\<open>sqlbindarray.py\<close> and \<^verbatim>\<open>encode.py\<close> raise
  plain \<^verbatim>\<open>Exception\<close> objects that differ in their message; the constructors name them
  by what the message says.
  \<^item> \<open>MalformedPlaceholder\<close>: \<^verbatim>\<open>Unexpected token ... following named parameter prefix\<close>;
  \<^item> \<open>UnsupportedValueType\<close>: \<^verbatim>\<open>to_sql called with value of unsupported type\<close>;
  \<^item> \<open>LengthNotSupported\<close>: the \<^verbatim>\<open>TypeError\<close> of \<^verbatim>\<open>len\<close> on an object without length;
  \<^item> \<open>UnpackError\<close>: the \<^verbatim>\<open>ValueError\<close> of \<^verbatim>\<open>name, = groups\<close> when \<^verbatim>\<open>groups\<close> does not
    hold exactly one element;
  \<^item> \<open>AssertionFailed\<close>: a failed \<^verbatim>\<open>assert\<close>;
  \<^item> \<open>NoMatchingSpec\<close>: \<^verbatim>\<open>next\<close> on an exhausted generator inside \<^verbatim>\<open>Lexer.tokens\<close>
    (a \<^verbatim>\<open>StopIteration\<close>, which a generator turns into \<^verbatim>\<open>RuntimeError\<close>);
  \<^item> \<open>IndexOutOfRange\<close>: an \<^verbatim>\<open>IndexError\<close>.
\<close>

datatype error =
    MalformedPlaceholder
  | UnsupportedValueType
  | LengthNotSupported
  | UnpackError
  | AssertionFailed
  | NoMatchingSpec
  | IndexOutOfRange

text \<open>Sequencing of computations that may raise: the first error wins.\<close>

definition bindE :: "error + 'a \<Rightarrow> ('a \<Rightarrow> error + 'b) \<Rightarrow> error + 'b" where
  "bindE m f = (case m of Inl e \<Rightarrow> Inl e | Inr x \<Rightarrow> f x)"

fun sequenceE :: "(error + 'a) list \<Rightarrow> error + 'a list" where
  "sequenceE [] = Inr []"
| "sequenceE (m # ms) =
     (case m of
        Inl e \<Rightarrow> Inl e
      | Inr x \<Rightarrow> (case sequenceE ms of Inl e \<Rightarrow> Inl e | Inr xs \<Rightarrow> Inr (x # xs)))"

section \<open>Python string primitives\<close>

definition squote :: char where
  "squote = CHR 0x27"

text \<open>\<^verbatim>\<open>s.replace(old, new)\<close> for a one-character \<^verbatim>\<open>old\<close>.\<close>

definition str_replace_char :: "char \<Rightarrow> string \<Rightarrow> string \<Rightarrow> string" where
  "str_replace_char old new s = concat (map (\<lambda>c. if c = old then new else [c]) s)"

text \<open>\<^verbatim>\<open>sep.join(parts)\<close>.\<close>

fun str_join :: "string \<Rightarrow> string list \<Rightarrow> string" where
  "str_join sep [] = []"
| "str_join sep [p] = p"
| "str_join sep (p # q # ps) = p @ sep @ str_join sep (q # ps)"

text \<open>\<^verbatim>\<open>str\<close> of an integer: decimal digits, with a minus sign when negative.\<close>

definition digit_char :: "nat \<Rightarrow> char" where
  "digit_char d = ''0123456789'' ! d"

function str_nat :: "nat \<Rightarrow> string" where
  "str_nat n = (if n < 10 then [digit_char n] else str_nat (n div 10) @ [digit_char (n mod 10)])"
  by pat_completeness auto
termination
  by (relation "measure (\<lambda>n. n)") auto

declare str_nat.simps [simp del]

definition str_int :: "int \<Rightarrow> string" where
  "str_int i = (if i < 0 then CHR ''-'' # str_nat (nat (- i)) else str_nat (nat i))"

definition str_bool :: "bool \<Rightarrow> string" where
  "str_bool b = (if b then ''True'' else ''False'')"

text \<open>\<^verbatim>\<open>len(value)\<close>: defined on strings and lists, a \<^verbatim>\<open>TypeError\<close> on numbers and
  \<^verbatim>\<open>None\<close>.\<close>

fun py_len :: "py_value \<Rightarrow> error + nat" where
  "py_len (PyStr s) = Inr (length s)"
| "py_len (PyList vs) = Inr (length vs)"
| "py_len (PyOther (Some n)) = Inr n"
| "py_len _ = Inl LengthNotSupported"

section \<open>The literal encoder (encode.py)\<close>

fun to_sql :: "py_value \<Rightarrow> error + string" where
  "to_sql (PyStr s) = Inr ([squote] @ str_replace_char squote [squote, squote] s @ [squote])"
| "to_sql (PyInt i) = Inr (str_int i)"
| "to_sql (PyBool b) = Inr (str_bool b)"
| "to_sql (PyFloat repr) = Inr repr"
| "to_sql (PyList vs) =
     bindE (sequenceE (map to_sql vs)) (\<lambda>parts. Inr (''('' @ str_join '', '' parts @ '')''))"
| "to_sql PyNone = Inr ''null''"
| "to_sql (PyOther n) = Inl UnsupportedValueType"

text \<open>The values \<^verbatim>\<open>to_sql\<close> accepts: strings, real numbers, \<^verbatim>\<open>None\<close>, and lists of
  such values, to any depth.\<close>

fun supported :: "py_value \<Rightarrow> bool" where
  "supported (PyList vs) = list_all supported vs"
| "supported (PyOther n) = False"
| "supported _ = True"

subsection \<open>Reading a quoted literal back\<close>

text \<open>
  The quoting convention of the specification, read in the other direction: strip the
  outer quotes, then collapse every doubled quote to one. A quote that is not doubled
  inside the literal is not part of the convention (\<open>None\<close>). This function is not in the
  source; it is the decoder the round-trip property speaks of.
\<close>

fun collapse_quotes :: "string \<Rightarrow> string option" where
  "collapse_quotes [] = Some []"
| "collapse_quotes [c] = (if c = squote then None else Some [c])"
| "collapse_quotes (c # d # cs) =
     (if c = squote then
        (if d = squote then map_option ((#) squote) (collapse_quotes cs) else None)
      else map_option ((#) c) (collapse_quotes (d # cs)))"

definition spec_decode :: "string \<Rightarrow> string option" where
  "spec_decode lit =
     (if 2 \<le> length lit \<and> hd lit = squote \<and> last lit = squote
      then collapse_quotes (butlast (tl lit))
      else None)"

section \<open>Regular expressions (the part of Python's \<^verbatim>\<open>re\<close> the lexer relies on)\<close>

text \<open>
  \<^verbatim>\<open>lexer.py\<close> hands its patterns to \<^verbatim>\<open>re.compile\<close> and calls \<^verbatim>\<open>search\<close>, \<^verbatim>\<open>start\<close>,
  \<^verbatim>\<open>end\<close> and \<^verbatim>\<open>groups\<close> on the result. A pattern is represented here by its syntax tree,
  for the constructs that occur in \<^verbatim>\<open>_token_patterns\<close>: single characters and character
  classes, \<^verbatim>\<open>$\<close>, concatenation, \<^verbatim>\<open>|\<close>, the greedy \<^verbatim>\<open>*\<close> and \<^verbatim>\<open>+\<close>, and capturing
  groups (a non-capturing group \<^verbatim>\<open>(?:...)\<close> is only bracketing, so it leaves no node).
\<close>

datatype cclass =
    Lit char               \<comment> \<open>the character itself\<close>
  | OneOf "char list"      \<comment> \<open>\<^verbatim>\<open>[...]\<close>\<close>
  | NoneOf "char list"     \<comment> \<open>\<^verbatim>\<open>[^...]\<close>\<close>
  | WordChar               \<comment> \<open>\<^verbatim>\<open>\w\<close>\<close>
  | SpaceChar              \<comment> \<open>\<^verbatim>\<open>\s\<close>\<close>

text \<open>
  For \<^verbatim>\<open>str\<close> patterns \<^verbatim>\<open>\w\<close> is \<^verbatim>\<open>str.isalnum\<close> or the underscore, and \<^verbatim>\<open>\s\<close> is
  \<^verbatim>\<open>str.isspace\<close>; the numbers below are the code points up to U+00FF for which they hold.
\<close>

fun in_class :: "cclass \<Rightarrow> char \<Rightarrow> bool" where
  "in_class (Lit a) c = (c = a)"
| "in_class (OneOf as) c = (c \<in> set as)"
| "in_class (NoneOf as) c = (c \<notin> set as)"
| "in_class WordChar c =
     (let n = (of_char c :: nat) in
        (48 \<le> n \<and> n \<le> 57) \<or> (65 \<le> n \<and> n \<le> 90) \<or> n = 95 \<or> (97 \<le> n \<and> n \<le> 122)
        \<or> n = 170 \<or> n = 178 \<or> n = 179 \<or> n = 181 \<or> n = 185 \<or> n = 186
        \<or> (188 \<le> n \<and> n \<le> 190) \<or> (192 \<le> n \<and> n \<le> 214) \<or> (216 \<le> n \<and> n \<le> 246)
        \<or> 248 \<le> n)"
| "in_class SpaceChar c =
     (let n = (of_char c :: nat) in
        (9 \<le> n \<and> n \<le> 13) \<or> (28 \<le> n \<and> n \<le> 32) \<or> n = 133 \<or> n = 160)"

datatype regex =
    Atom cclass
  | Eps                    \<comment> \<open>the empty pattern\<close>
  | Eol                    \<comment> \<open>\<^verbatim>\<open>$\<close>\<close>
  | Seq regex regex
  | Alt regex regex        \<comment> \<open>\<^verbatim>\<open>a|b\<close>\<close>
  | Star regex             \<comment> \<open>\<^verbatim>\<open>a*\<close>\<close>
  | Plus regex             \<comment> \<open>\<^verbatim>\<open>a+\<close>\<close>
  | Group regex            \<comment> \<open>\<^verbatim>\<open>(a)\<close>\<close>

text \<open>\<^verbatim>\<open>re.compile(pattern).groups\<close>: the number of capturing groups.\<close>

fun ngroups :: "regex \<Rightarrow> nat" where
  "ngroups (Atom k) = 0"
| "ngroups Eps = 0"
| "ngroups Eol = 0"
| "ngroups (Seq a b) = ngroups a + ngroups b"
| "ngroups (Alt a b) = ngroups a + ngroups b"
| "ngroups (Star a) = ngroups a"
| "ngroups (Plus a) = ngroups a"
| "ngroups (Group a) = Suc (ngroups a)"

fun rweight :: "regex \<Rightarrow> nat" where
  "rweight (Atom k) = 0"
| "rweight Eps = 0"
| "rweight Eol = 0"
| "rweight (Seq a b) = Suc (rweight a + rweight b)"
| "rweight (Alt a b) = Suc (rweight a + rweight b)"
| "rweight (Star a) = Suc (rweight a)"
| "rweight (Plus a) = Suc (Suc (rweight a))"
| "rweight (Group a) = Suc (rweight a)"

type_synonym captures = "string option list"

text \<open>A group keeps the text of the last repetition in which it took part.\<close>

definition merge_caps :: "captures \<Rightarrow> captures \<Rightarrow> captures" where
  "merge_caps old new = map (\<lambda>(x, y). case y of None \<Rightarrow> x | Some t \<Rightarrow> Some t) (zip old new)"

text \<open>
  The backtracking matcher. \<open>rmatch r s\<close> lists every way \<open>r\<close> can match a prefix of the
  remaining input \<open>s\<close>, in the order in which the engine tries them: the number of
  characters consumed, and the value of each group of \<open>r\<close> (\<open>None\<close> for a group that
  took no part). Alternatives are tried left to right; \<^verbatim>\<open>*\<close> and \<^verbatim>\<open>+\<close> are greedy, and a
  repetition that consumed nothing is not repeated again. \<^verbatim>\<open>$\<close> holds at the end of the
  input and before a newline that ends it.
\<close>

function rmatch :: "regex \<Rightarrow> string \<Rightarrow> (nat \<times> captures) list" where
  "rmatch (Atom k) s = (case s of [] \<Rightarrow> [] | c # _ \<Rightarrow> if in_class k c then [(1, [])] else [])"
| "rmatch Eps s = [(0, [])]"
| "rmatch Eol s = (if s = [] \<or> s = [CHR 0x0A] then [(0, [])] else [])"
| "rmatch (Seq a b) s =
     concat (map (\<lambda>(n, ca). map (\<lambda>(m, cb). (n + m, ca @ cb)) (rmatch b (drop n s))) (rmatch a s))"
| "rmatch (Alt a b) s =
     map (\<lambda>(n, ca). (n, ca @ replicate (ngroups b) None)) (rmatch a s)
     @ map (\<lambda>(m, cb). (m, replicate (ngroups a) None @ cb)) (rmatch b s)"
| "rmatch (Star a) s =
     concat (map (\<lambda>(n, ca).
        if 0 < n \<and> n \<le> length s
        then map (\<lambda>(m, cb). (n + m, merge_caps ca cb)) (rmatch (Star a) (drop n s))
        else [(0, ca)]) (rmatch a s))
     @ [(0, replicate (ngroups a) None)]"
| "rmatch (Plus a) s =
     concat (map (\<lambda>(n, ca).
        map (\<lambda>(m, cb). (n + m, merge_caps ca cb)) (rmatch (Star a) (drop n s))) (rmatch a s))"
| "rmatch (Group a) s = map (\<lambda>(n, ca). (n, Some (take n s) # ca)) (rmatch a s)"
  by pat_completeness auto
termination
  by (relation "inv_image (less_than <*lex*> less_than) (\<lambda>(r, s). (rweight r, length s))") auto

text \<open>The equation for \<open>Star\<close> calls \<open>rmatch\<close> on \<open>Star\<close> again, so it is not a rewrite rule
  for the simplifier.\<close>

declare rmatch.simps(6) [simp del]

text \<open>A match object: \<^verbatim>\<open>match.start()\<close>, \<^verbatim>\<open>match.end()\<close>, \<^verbatim>\<open>match.groups()\<close>.\<close>

record re_match =
  m_start :: nat
  m_end :: nat
  m_groups :: captures

text \<open>
  \<^verbatim>\<open>regex.search(text, pos, endpos)\<close>: the input is \<^verbatim>\<open>text[:endpos]\<close>; the first position
  from \<open>pos\<close> on at which the pattern matches wins, and there the first way of matching.
\<close>

function re_search :: "regex \<Rightarrow> string \<Rightarrow> nat \<Rightarrow> nat \<Rightarrow> re_match option" where
  "re_search r txt pos endpos =
     (if min endpos (length txt) < pos then None
      else case rmatch r (drop pos (take endpos txt)) of
             (n, caps) # _ \<Rightarrow> Some \<lparr>m_start = pos, m_end = pos + n, m_groups = caps\<rparr>
           | [] \<Rightarrow> re_search r txt (Suc pos) endpos)"
  by pat_completeness auto
termination
  by (relation "measure (\<lambda>(r, txt, pos, endpos). Suc endpos - pos)") auto

declare re_search.simps [simp del]

text \<open>A pattern that can match without consuming a character.\<close>

fun nullable :: "regex \<Rightarrow> bool" where
  "nullable (Atom k) = False"
| "nullable Eps = True"
| "nullable Eol = True"
| "nullable (Seq a b) = (nullable a \<and> nullable b)"
| "nullable (Alt a b) = (nullable a \<or> nullable b)"
| "nullable (Star a) = True"
| "nullable (Plus a) = nullable a"
| "nullable (Group a) = nullable a"

section \<open>The pattern tokenizer (lexer.py)\<close>

record token =
  kind :: "string option"
  tok_text :: string
  groups :: "string option list"
  input_range :: "nat \<times> nat"

record group_spec =
  group_index :: nat
  subgroup_range :: "nat \<times> nat"
  token_kind :: string

definition token_pattern_to_group_spec ::
    "group_spec list \<Rightarrow> string \<times> regex \<Rightarrow> group_spec list" where
  "token_pattern_to_group_spec spec_list named_pattern =
     (let index = (if length spec_list = 0 then 0 else snd (subgroup_range (last spec_list)));
          name = fst named_pattern;
          pattern = snd named_pattern;
          num_subgroups = ngroups pattern
      in spec_list @ [\<lparr>group_index = index,
                        subgroup_range = (index + 1, index + 1 + num_subgroups),
                        token_kind = name\<rparr>])"

definition group_specs :: "(string \<times> regex) list \<Rightarrow> group_spec list" where
  "group_specs patterns = foldl token_pattern_to_group_spec [] patterns"

text \<open>
  \<^verbatim>\<open>_combine_patterns\<close> joins the parenthesised patterns with \<^verbatim>\<open>|\<close>; what is kept here is
  the syntax tree \<^verbatim>\<open>re.compile\<close> builds from that text. No pattern at all gives the empty
  pattern.
\<close>

fun combine_patterns :: "regex list \<Rightarrow> regex" where
  "combine_patterns [] = Eps"
| "combine_patterns [p] = Group p"
| "combine_patterns (p # q # ps) = Alt (Group p) (combine_patterns (q # ps))"

record lexer =
  lx_regex :: regex
  lx_group_specs :: "group_spec list"

text \<open>\<^verbatim>\<open>Lexer.__init__\<close>. The patterns are an association list: a Python \<^verbatim>\<open>dict\<close> keeps
  the order in which its keys were inserted, and the order decides which alternative
  wins.\<close>

definition Lexer :: "(string \<times> regex) list \<Rightarrow> lexer" where
  "Lexer patterns =
     \<lparr>lx_regex = combine_patterns (map snd patterns),
      lx_group_specs = group_specs patterns\<rparr>"

text \<open>The slice \<^verbatim>\<open>xs[i:j]\<close> for \<open>0 \<le> i\<close> and \<open>0 \<le> j\<close>.\<close>

definition slice :: "'a list \<Rightarrow> nat \<Rightarrow> nat \<Rightarrow> 'a list" where
  "slice xs i j = drop i (take j xs)"

text \<open>
  \<^verbatim>\<open>next(spec for spec in self._group_specs if groups[spec.group_index] is not None)\<close>,
  returned together with the value of that group, which is the token's text.
\<close>

fun find_spec :: "group_spec list \<Rightarrow> captures \<Rightarrow> error + group_spec \<times> string" where
  "find_spec [] gs = Inl NoMatchingSpec"
| "find_spec (spec # specs) gs =
     (if group_index spec < length gs
      then (case gs ! group_index spec of
              Some t \<Rightarrow> Inr (spec, t)
            | None \<Rightarrow> find_spec specs gs)
      else Inl IndexOutOfRange)"

text \<open>
  One pass through the body of the \<^verbatim>\<open>while\<close> loop of \<^verbatim>\<open>Lexer.tokens\<close>, entered with
  \<open>index \<noteq> length txt\<close>: the tokens it yields and the cursor it leaves.
\<close>

definition tokens_step :: "lexer \<Rightarrow> string \<Rightarrow> nat \<Rightarrow> error + token list \<times> nat" where
  "tokens_step lx txt index =
     (let endpos = length txt in
      if \<not> index < endpos then Inl AssertionFailed
      else
        (case re_search (lx_regex lx) txt index endpos of
           None \<Rightarrow>
             Inr ([\<lparr>kind = None, tok_text = slice txt index endpos, groups = [],
                     input_range = (index, endpos)\<rparr>], endpos)
         | Some m \<Rightarrow>
             (let start = m_start m;
                  gap = (if start \<noteq> index
                         then [\<lparr>kind = None, tok_text = slice txt index start, groups = [],
                                 input_range = (index, start)\<rparr>]
                         else [])
              in case find_spec (lx_group_specs lx) (m_groups m) of
                   Inl e \<Rightarrow> Inl e
                 | Inr (matched_spec, matched_text) \<Rightarrow>
                     Inr (gap @
                          [\<lparr>kind = Some (token_kind matched_spec),
                            tok_text = matched_text,
                            groups = slice (m_groups m) (fst (subgroup_range matched_spec))
                                       (snd (subgroup_range matched_spec)),
                            input_range = (start, m_end m)\<rparr>],
                          m_end m))))"

text \<open>
  The loop itself. It need not end, so the result is an option: \<open>None\<close> when the generator
  never finishes, \<open>Some (Inl e)\<close> when it raises, \<open>Some (Inr ts)\<close> when it finishes having
  yielded \<open>ts\<close>.
\<close>

partial_function (option) tokens_from ::
    "lexer \<Rightarrow> string \<Rightarrow> nat \<Rightarrow> (error + token list) option" where
  "tokens_from lx txt index =
     (if index = length txt then Some (Inr [])
      else
        (case tokens_step lx txt index of
           Inl e \<Rightarrow> Some (Inl e)
         | Inr (ts, index') \<Rightarrow>
             Option.bind (tokens_from lx txt index')
               (\<lambda>rest. Some (case rest of Inl e \<Rightarrow> Inl e | Inr ts' \<Rightarrow> Inr (ts @ ts')))))"

declare tokens_from.simps [code]

definition tokens :: "lexer \<Rightarrow> string \<Rightarrow> (error + token list) option" where
  "tokens lx txt = tokens_from lx txt 0"

definition tokenize :: "string \<Rightarrow> (string \<times> regex) list \<Rightarrow> (error + token list) option" where
  "tokenize txt patterns = tokens (Lexer patterns) txt"

section \<open>The substitution engine (sqlbindarray.py)\<close>

definition lit :: "char \<Rightarrow> regex" where
  "lit c = Atom (Lit c)"

text \<open>
  \<^verbatim>\<open>_token_patterns\<close>, each pattern as its syntax tree:
  \<^verbatim>\<open>
    'quoted string':                 '[^']*'
    'quoted identifier':             "([^"]*)"
    'line comment':                  --[^\n]*(?:\n|$)
    'block comment':                 /\*+(?:[^*]|\*[^/])*\*+/
    'named parameter prefix':        [:@]
    'named parameter length prefix': #:|#@
    'python named parameter':        %\((\w+)\)s
    'python named parameter length': #%\((\w+)\)s
    'word':                          \w+
    'whitespace':                    \s+
  \<close>
\<close>

definition token_patterns :: "(string \<times> regex) list" where
  "token_patterns =
     [(''quoted string'',
         Seq (lit CHR 0x27) (Seq (Star (Atom (NoneOf [CHR 0x27]))) (lit CHR 0x27))),
      (''quoted identifier'',
         Seq (lit CHR 0x22) (Seq (Group (Star (Atom (NoneOf [CHR 0x22])))) (lit CHR 0x22))),
      (''line comment'',
         Seq (lit CHR ''-'') (Seq (lit CHR ''-'')
           (Seq (Star (Atom (NoneOf [CHR 0x0A]))) (Alt (lit CHR 0x0A) Eol)))),
      (''block comment'',
         Seq (lit CHR ''/'') (Seq (Plus (lit CHR ''*''))
           (Seq (Star (Alt (Atom (NoneOf ''*'')) (Seq (lit CHR ''*'') (Atom (NoneOf ''/'')))))
             (Seq (Plus (lit CHR ''*'')) (lit CHR ''/''))))),
      (''named parameter prefix'', Atom (OneOf '':@'')),
      (''named parameter length prefix'',
         Alt (Seq (lit CHR ''#'') (lit CHR '':'')) (Seq (lit CHR ''#'') (lit CHR ''@''))),
      (''python named parameter'',
         Seq (lit CHR ''%'') (Seq (lit CHR ''('')
           (Seq (Group (Plus (Atom WordChar))) (Seq (lit CHR '')'') (lit CHR ''s''))))),
      (''python named parameter length'',
         Seq (lit CHR ''#'') (Seq (lit CHR ''%'') (Seq (lit CHR ''('')
           (Seq (Group (Plus (Atom WordChar))) (Seq (lit CHR '')'') (lit CHR ''s'')))))),
      (''word'', Plus (Atom WordChar)),
      (''whitespace'', Plus (Atom SpaceChar))]"

text \<open>\<^verbatim>\<open>_tokens\<close>: the tokens of a statement, from the one lexer built for
  \<^verbatim>\<open>_token_patterns\<close>.\<close>

definition sql_tokens :: "string \<Rightarrow> (error + token list) option" where
  "sql_tokens txt = tokens (Lexer token_patterns) txt"

datatype parser_state = CHILLIN | IN_PARAMETER | IN_PARAMETER_LENGTH

datatype output_operation = PUSH | EMIT | FLUSH

type_synonym bindings = "string \<rightharpoonup> py_value"

text \<open>The unpacking \<^verbatim>\<open>name, = groups\<close> followed by \<^verbatim>\<open>assert name is not None\<close>.\<close>

fun unpack_name :: "string option list \<Rightarrow> error + string" where
  "unpack_name [Some name] = Inr name"
| "unpack_name [None] = Inl AssertionFailed"
| "unpack_name gs = Inl UnpackError"

definition handle_token ::
    "token \<Rightarrow> parser_state \<Rightarrow> bindings \<Rightarrow> error + output_operation \<times> string \<times> parser_state" where
  "handle_token tok state bindings =
     (if kind tok \<in> {Some ''line comment'', Some ''block comment'', Some ''whitespace''}
      then Inr (PUSH, tok_text tok, state)
      else if state = CHILLIN then
        (if kind tok = Some ''python named parameter'' then
           bindE (unpack_name (groups tok)) (\<lambda>name.
             case bindings name of
               Some v \<Rightarrow> bindE (to_sql v) (\<lambda>part. Inr (FLUSH, part, state))
             | None \<Rightarrow> Inr (FLUSH, tok_text tok, state))
         else if kind tok = Some ''python named parameter length'' then
           bindE (unpack_name (groups tok)) (\<lambda>name.
             case bindings name of
               Some v \<Rightarrow> bindE (py_len v) (\<lambda>n. Inr (FLUSH, str_nat n, state))
             | None \<Rightarrow> Inr (FLUSH, tok_text tok, state))
         else if kind tok = Some ''named parameter prefix'' then
           Inr (PUSH, tok_text tok, IN_PARAMETER)
         else if kind tok = Some ''named parameter length prefix'' then
           Inr (PUSH, tok_text tok, IN_PARAMETER_LENGTH)
         else Inr (FLUSH, tok_text tok, state))
      else
        bindE (if kind tok = Some ''word'' then Inr (tok_text tok)
               else if kind tok = Some ''quoted identifier'' then unpack_name (groups tok)
               else Inl MalformedPlaceholder) (\<lambda>name.
          case bindings name of
            None \<Rightarrow> Inr (FLUSH, tok_text tok, CHILLIN)
          | Some v \<Rightarrow>
              if state = IN_PARAMETER then
                bindE (to_sql v) (\<lambda>part. Inr (EMIT, part, CHILLIN))
              else if state = IN_PARAMETER_LENGTH then
                bindE (py_len v) (\<lambda>n. Inr (EMIT, str_nat n, CHILLIN))
              else Inl AssertionFailed))"

text \<open>The two buffers of \<^verbatim>\<open>replace\<close>, \<^verbatim>\<open>output_parts\<close> and \<^verbatim>\<open>enqueued_parts\<close>, and what
  each output operation does to them.\<close>

fun apply_op ::
    "output_operation \<Rightarrow> string \<Rightarrow> string list \<times> string list \<Rightarrow> string list \<times> string list" where
  "apply_op PUSH part (output_parts, enqueued_parts) = (output_parts, enqueued_parts @ [part])"
| "apply_op EMIT part (output_parts, enqueued_parts) = (output_parts @ [part], [])"
| "apply_op FLUSH part (output_parts, enqueued_parts) =
     (output_parts @ enqueued_parts @ [part], [])"

text \<open>The \<^verbatim>\<open>for\<close> loop of \<^verbatim>\<open>replace\<close> over the tokens, threading the parser state and the
  two buffers; it stops at the first token on which \<^verbatim>\<open>_handle_token\<close> raises.\<close>

fun replace_loop ::
    "token list \<Rightarrow> bindings \<Rightarrow> parser_state \<times> string list \<times> string list
      \<Rightarrow> error + parser_state \<times> string list \<times> string list" where
  "replace_loop [] bindings st = Inr st"
| "replace_loop (tok # toks) bindings (state, buffers) =
     (case handle_token tok state bindings of
        Inl e \<Rightarrow> Inl e
      | Inr (op, part, state') \<Rightarrow> replace_loop toks bindings (state', apply_op op part buffers))"

text \<open>
  \<^verbatim>\<open>replace\<close>. The generator of tokens is consumed to its end before the loop runs; for
  \<^verbatim>\<open>_token_patterns\<close> the generator always finishes and never raises (lemma
  \<open>sql_tokens_total\<close> below), so running the two in turn gives the result of
  interleaving them.
\<close>

definition replace :: "string \<Rightarrow> bindings \<Rightarrow> (error + string) option" where
  "replace sql_statement bindings =
     (case sql_tokens sql_statement of
        None \<Rightarrow> None
      | Some (Inl e) \<Rightarrow> Some (Inl e)
      | Some (Inr toks) \<Rightarrow>
          Some (case replace_loop toks bindings (CHILLIN, [], []) of
                  Inl e \<Rightarrow> Inl e
                | Inr (state, output_parts, enqueued_parts) \<Rightarrow>
                    Inr (concat (output_parts @ enqueued_parts))))"

section \<open>Notions used in the statements\<close>

text \<open>The group specs of a list of patterns, counted from a given offset: what the fold
  in \<open>group_specs\<close> computes, without the look at the last element.\<close>

fun specs_from :: "nat \<Rightarrow> (string \<times> regex) list \<Rightarrow> group_spec list" where
  "specs_from off [] = []"
| "specs_from off (np # rest) =
     \<lparr>group_index = off, subgroup_range = (off + 1, off + 1 + ngroups (snd np)),
      token_kind = fst np\<rparr> # specs_from (off + 1 + ngroups (snd np)) rest"

text \<open>
  \<open>tokens_cover txt i ts j\<close>: the tokens \<open>ts\<close> partition the input from offset \<open>i\<close> to
  offset \<open>j\<close>: each token starts where the one before it ended, lies inside the input,
  and its text is the input between the two ends of its range.
\<close>

fun tokens_cover :: "string \<Rightarrow> nat \<Rightarrow> token list \<Rightarrow> nat \<Rightarrow> bool" where
  "tokens_cover txt i [] j = (i = j)"
| "tokens_cover txt i (t # ts) j =
     (fst (input_range t) = i \<and> i \<le> snd (input_range t) \<and> snd (input_range t) \<le> length txt
      \<and> tok_text t = slice txt i (snd (input_range t))
      \<and> tokens_cover txt (snd (input_range t)) ts j)"

text \<open>The kinds of token the transition function tells apart.\<close>

definition is_trivia :: "token \<Rightarrow> bool" where
  "is_trivia t = (kind t \<in> {Some ''line comment'', Some ''block comment'', Some ''whitespace''})"

definition is_prefix :: "token \<Rightarrow> bool" where
  "is_prefix t =
     (kind t \<in> {Some ''named parameter prefix'', Some ''named parameter length prefix''})"

definition is_placeholder :: "token \<Rightarrow> bool" where
  "is_placeholder t =
     (kind t \<in> {Some ''named parameter prefix'', Some ''named parameter length prefix'',
                Some ''python named parameter'', Some ''python named parameter length''})"

definition is_name :: "token \<Rightarrow> bool" where
  "is_name t = (kind t \<in> {Some ''word'', Some ''quoted identifier''})"

text \<open>The parameter name a token stands for after a prefix: the text of a word, the
  captured inside of a quoted identifier.\<close>

definition token_name :: "token \<Rightarrow> string option" where
  "token_name t =
     (if kind t = Some ''word'' then Some (tok_text t)
      else if kind t = Some ''quoted identifier'' then
        (case groups t of [Some name] \<Rightarrow> Some name | _ \<Rightarrow> None)
      else None)"

definition is_python :: "token \<Rightarrow> bool" where
  "is_python t =
     (kind t \<in> {Some ''python named parameter'', Some ''python named parameter length''})"

text \<open>
  What the tokenizer promises about a token it labels: its kind names one of the
  patterns, and that pattern matches the token's text at some input, with the token's
  \<open>groups\<close> as the values of the pattern's groups.
\<close>

definition token_ok :: "(string \<times> regex) list \<Rightarrow> token \<Rightarrow> bool" where
  "token_ok pats t =
     (case kind t of
        None \<Rightarrow> True
      | Some name \<Rightarrow>
          (\<exists>p s n. (name, p) \<in> set pats \<and> (n, groups t) \<in> set (rmatch p s)
                    \<and> tok_text t = take n s))"

text \<open>A pattern in which every group takes part in every match: no group stands under
  an alternative or a repetition.\<close>

fun definite :: "regex \<Rightarrow> bool" where
  "definite (Seq a b) = (definite a \<and> definite b)"
| "definite (Alt a b) = (ngroups a = 0 \<and> ngroups b = 0)"
| "definite (Star a) = (ngroups a = 0)"
| "definite (Plus a) = (ngroups a = 0)"
| "definite (Group a) = definite a"
| "definite r = True"

section \<open>Properties of the encoder\<close>

lemma collapse_quotes_other:
  "c \<noteq> squote \<Longrightarrow> collapse_quotes (c # cs) = map_option ((#) c) (collapse_quotes cs)"
  by (cases cs) simp_all

lemma collapse_quotes_doubled:
  "collapse_quotes (str_replace_char squote [squote, squote] s) = Some s"
proof (induction s)
  case Nil
  show ?case by (simp add: str_replace_char_def)
next
  case (Cons c s)
  then have IH: "collapse_quotes (concat (map (\<lambda>c. if c = squote then [squote, squote] else [c]) s)) = Some s"
    by (simp add: str_replace_char_def)
  show ?case
  proof (cases "c = squote")
    case True
    with IH show ?thesis by (simp add: str_replace_char_def)
  next
    case False
    with IH show ?thesis by (simp add: str_replace_char_def collapse_quotes_other)
  qed
qed

lemma sequenceE_supported:
  assumes "\<And>v. v \<in> set vs \<Longrightarrow> \<exists>s. f v = Inr s"
  shows "\<exists>parts. sequenceE (map f vs) = Inr parts \<and> map f vs = map Inr parts"
  using assms
proof (induction vs)
  case Nil
  show ?case by simp
next
  case (Cons v vs)
  from Cons.prems obtain s where s: "f v = Inr s" by auto
  from Cons obtain parts where "sequenceE (map f vs) = Inr parts" "map f vs = map Inr parts"
    by auto
  with s show ?case by simp
qed

lemma to_sql_supported: "supported v \<Longrightarrow> \<exists>s. to_sql v = Inr s"
proof (induction v rule: to_sql.induct)
  case (5 vs)
  have "\<And>v. v \<in> set vs \<Longrightarrow> \<exists>s. to_sql v = Inr s"
    using 5 by (auto simp: list_all_iff)
  from sequenceE_supported [where f = to_sql and vs = vs, OF this] show ?case
    by (auto simp: bindE_def)
qed simp_all

text \<open>
  C8. For every string \<open>s\<close>, \<open>to_sql\<close> wraps \<open>s\<close> in single quotes with every single quote
  inside doubled and nothing else changed, and decoding the result under the same
  convention (strip the outer quotes, collapse doubled quotes) yields \<open>s\<close> again.
\<close>

theorem to_sql_string_roundtrip:
  "to_sql (PyStr s) =
     Inr ([squote] @ concat (map (\<lambda>c. if c = squote then [squote, squote] else [c]) s) @ [squote])
   \<and> (\<exists>lit. to_sql (PyStr s) = Inr lit \<and> spec_decode lit = Some s)"
  by (simp add: spec_decode_def collapse_quotes_doubled str_replace_char_def [symmetric])

text \<open>
  C9. For every list \<open>vs\<close> of supported values, \<open>to_sql\<close> succeeds on every element and the
  encoding of the list is an opening parenthesis, the encodings of the elements in order
  joined by a comma and a space, and a closing parenthesis. The empty list encodes as
  \<open>()\<close>, and a list of lists encodes as nested parenthesised lists.
\<close>

theorem to_sql_list:
  "(list_all supported vs \<longrightarrow>
      (\<exists>parts. map to_sql vs = map Inr parts
         \<and> to_sql (PyList vs) = Inr (''('' @ str_join '', '' parts @ '')'')))
   \<and> to_sql (PyList []) = Inr ''()''
   \<and> to_sql (PyList [PyList [PyInt 1, PyInt 2], PyList [], PyList [PyList [PyStr ''a'']]])
       = Inr (''((1, 2), (), (('' @ [squote] @ ''a'' @ [squote] @ '')))'')"
proof (intro conjI impI)
  assume "list_all supported vs"
  then have "\<And>v. v \<in> set vs \<Longrightarrow> \<exists>s. to_sql v = Inr s"
    by (auto simp: list_all_iff to_sql_supported)
  from sequenceE_supported [where f = to_sql and vs = vs, OF this]
  show "\<exists>parts. map to_sql vs = map Inr parts
          \<and> to_sql (PyList vs) = Inr (''('' @ str_join '', '' parts @ '')'')"
    by (auto simp: bindE_def)
next
  show "to_sql (PyList []) = Inr ''()''"
    by (simp add: bindE_def)
next
  show "to_sql (PyList [PyList [PyInt 1, PyInt 2], PyList [], PyList [PyList [PyStr ''a'']]])
          = Inr (''((1, 2), (), (('' @ [squote] @ ''a'' @ [squote] @ '')))'')"
    by (simp add: bindE_def str_int_def str_nat.simps digit_char_def str_replace_char_def
        squote_def)
qed

theorem to_sql_list_witness:
  "list_all supported [PyInt 1, PyStr ''it's'', PyNone]
   \<and> (\<exists>parts. map to_sql [PyInt 1, PyStr ''it's'', PyNone] = map Inr parts
         \<and> to_sql (PyList [PyInt 1, PyStr ''it's'', PyNone])
             = Inr (''('' @ str_join '', '' parts @ '')''))"
proof -
  have h: "list_all supported [PyInt 1, PyStr ''it's'', PyNone]" by simp
  from to_sql_list [of "[PyInt 1, PyStr ''it's'', PyNone]"] h show ?thesis by blast
qed

section \<open>Properties of the matcher\<close>




lemma merge_caps_length: "length (merge_caps a b) = min (length a) (length b)"
  by (simp add: merge_caps_def)

lemma rmatch_bounds:
  "(n, caps) \<in> set (rmatch r s) \<Longrightarrow> n \<le> length s \<and> length caps = ngroups r"
proof (induction r s arbitrary: n caps rule: rmatch.induct)
  case (1 k s)
  then show ?case by (auto split: list.splits if_splits)
next
  case (2 s)
  then show ?case by simp
next
  case (3 s)
  then show ?case by (auto split: if_splits)
next
  case (4 a b s)
  from 4(3) obtain n1 c1 n2 c2 where
    a: "(n1, c1) \<in> set (rmatch a s)" and b: "(n2, c2) \<in> set (rmatch b (drop n1 s))"
    and e: "n = n1 + n2" "caps = c1 @ c2"
    by auto
  from 4(1) [OF a] have "n1 \<le> length s" "length c1 = ngroups a" by auto
  moreover from 4(2) [OF a refl b] have "n2 \<le> length s - n1" "length c2 = ngroups b" by auto
  ultimately show ?case using e by auto
next
  case (5 a b s)
  then show ?case by auto
next
  case (6 a s)
  have eq: "rmatch (Star a) s =
     concat (map (\<lambda>(n, ca).
        if 0 < n \<and> n \<le> length s
        then map (\<lambda>(m, cb). (n + m, merge_caps ca cb)) (rmatch (Star a) (drop n s))
        else [(0, ca)]) (rmatch a s))
     @ [(0, replicate (ngroups a) None)]"
    by (rule rmatch.simps)
  from 6(3) [unfolded eq] consider
    (last) "n = 0" "caps = replicate (ngroups a) None"
  | (stop) n1 c1 where "(n1, c1) \<in> set (rmatch a s)" "\<not> (0 < n1 \<and> n1 \<le> length s)" "n = 0" "caps = c1"
  | (more) n1 c1 n2 c2 where "(n1, c1) \<in> set (rmatch a s)" "0 < n1 \<and> n1 \<le> length s"
      "(n2, c2) \<in> set (rmatch (Star a) (drop n1 s))" "n = n1 + n2" "caps = merge_caps c1 c2"
    by (auto split: if_splits)
  then show ?case
  proof cases
    case last
    then show ?thesis by simp
  next
    case stop
    with 6(1) [OF stop(1)] show ?thesis by simp
  next
    case more
    from 6(1) [OF more(1)] have "length c1 = ngroups a" by simp
    moreover from 6(2) [OF more(1) refl more(2) more(3)]
    have "n2 \<le> length s - n1" "length c2 = ngroups a" by auto
    ultimately show ?thesis using more by (auto simp: merge_caps_length)
  qed
next
  case (7 a s)
  from 7(3) obtain n1 c1 n2 c2 where
    a: "(n1, c1) \<in> set (rmatch a s)" and b: "(n2, c2) \<in> set (rmatch (Star a) (drop n1 s))"
    and e: "n = n1 + n2" "caps = merge_caps c1 c2"
    by auto
  from 7(1) [OF a] have "n1 \<le> length s" "length c1 = ngroups a" by auto
  moreover from 7(2) [OF a refl b] have "n2 \<le> length s - n1" "length c2 = ngroups a" by auto
  ultimately show ?case using e by (auto simp: merge_caps_length)
next
  case (8 a s)
  then show ?case by auto
qed

lemma rmatch_progress:
  "\<not> nullable r \<Longrightarrow> (n, caps) \<in> set (rmatch r s) \<Longrightarrow> 0 < n"
proof (induction r arbitrary: n caps s)
  case (Atom k)
  then show ?case by (auto split: list.splits if_splits)
next
  case Eps
  from Eps(1) show ?case by simp
next
  case Eol
  from Eol(1) show ?case by simp
next
  case (Seq a b)
  from Seq.prems(2) obtain n1 c1 n2 c2 where
    a: "(n1, c1) \<in> set (rmatch a s)" and b: "(n2, c2) \<in> set (rmatch b (drop n1 s))"
    and e: "n = n1 + n2"
    by auto
  show ?case
  proof (cases "nullable a")
    case True
    with Seq.prems(1) have "\<not> nullable b" by simp
    from Seq.IH(2) [OF this b] e show ?thesis by simp
  next
    case False
    from Seq.IH(1) [OF this a] e show ?thesis by simp
  qed
next
  case (Alt a b)
  from Alt.prems(1) have na: "\<not> nullable a" and nb: "\<not> nullable b" by simp_all
  from Alt.prems(2) obtain c where
    "(n, c) \<in> set (rmatch a s) \<or> (n, c) \<in> set (rmatch b s)"
    by auto
  with Alt.IH(1) [OF na] Alt.IH(2) [OF nb] show ?case by blast
next
  case (Star a)
  from Star.prems(1) show ?case by simp
next
  case (Plus a)
  from Plus.prems(2) obtain n1 c1 n2 where
    a: "(n1, c1) \<in> set (rmatch a s)" and e: "n = n1 + n2"
    by auto
  from Plus.prems(1) have "\<not> nullable a" by simp
  from Plus.IH [OF this a] e show ?case by simp
next
  case (Group a)
  from Group.prems(1) have na: "\<not> nullable a" by simp
  from Group.prems(2) obtain c where "(n, c) \<in> set (rmatch a s)" by auto
  from Group.IH [OF na this] show ?case .
qed

section \<open>Properties of the tokenizer\<close>

lemma foldl_group_specs:
  "foldl token_pattern_to_group_spec acc pats =
     acc @ specs_from (if acc = [] then 0 else snd (subgroup_range (last acc))) pats"
proof (induction pats arbitrary: acc)
  case Nil
  show ?case by simp
next
  case (Cons np pats)
  let ?acc' = "token_pattern_to_group_spec acc np"
  have "foldl token_pattern_to_group_spec acc (np # pats)
          = foldl token_pattern_to_group_spec ?acc' pats"
    by simp
  also have "\<dots> = ?acc' @ specs_from (if ?acc' = [] then 0
                                         else snd (subgroup_range (last ?acc'))) pats"
    by (rule Cons.IH)
  also have "\<dots> = acc @ specs_from (if acc = [] then 0
                                        else snd (subgroup_range (last acc))) (np # pats)"
    by (simp add: token_pattern_to_group_spec_def Let_def)
  finally show ?case .
qed

lemma group_specs_from: "group_specs pats = specs_from 0 pats"
  by (simp add: group_specs_def foldl_group_specs)

lemma find_spec_combined:
  assumes "(n, caps) \<in> set (rmatch (combine_patterns (map snd pats)) s)"
    and "pats \<noteq> []" and "length pre = off"
  shows "\<exists>spec. find_spec (specs_from off pats) (pre @ caps) = Inr (spec, take n s)"
  using assms
proof (induction pats arbitrary: off pre caps)
  case Nil
  then show ?case by simp
next
  case (Cons np pats)
  show ?case
  proof (cases pats)
    case Nil
    with Cons.prems(1) obtain ca where "caps = Some (take n s) # ca"
      by auto
    with Cons.prems(3) show ?thesis by (simp add: nth_append)
  next
    case (Cons nq rest)
    with Cons.prems(1) consider
      (left) ca where "caps = Some (take n s) # ca"
    | (right) cb where "caps = replicate (Suc (ngroups (snd np))) None @ cb"
        "(n, cb) \<in> set (rmatch (combine_patterns (map snd pats)) s)"
      by auto
    then show ?thesis
    proof cases
      case left
      with Cons.prems(3) show ?thesis by (simp add: nth_append)
    next
      case right
      let ?pre = "pre @ replicate (Suc (ngroups (snd np))) None"
      have "length ?pre = off + 1 + ngroups (snd np)"
        using Cons.prems(3) by simp
      from Cons.IH [OF right(2) _ this] Cons
      obtain spec where
        "find_spec (specs_from (off + 1 + ngroups (snd np)) pats) (?pre @ cb) = Inr (spec, take n s)"
        by auto
      with right(1) Cons.prems(3) show ?thesis
        by (simp add: nth_append)
    qed
  qed
qed

lemma re_search_Some:
  "re_search r inp pos endpos = Some m \<Longrightarrow>
     pos \<le> m_start m \<and> m_start m \<le> min endpos (length inp)
     \<and> (\<exists>n caps. (n, caps) \<in> set (rmatch r (drop (m_start m) (take endpos inp)))
           \<and> m_end m = m_start m + n \<and> m_groups m = caps)"
proof (induction r inp pos endpos rule: re_search.induct)
  case (1 r inp pos endpos)
  show ?case
  proof (cases "min endpos (length inp) < pos")
    case True
    with 1(2) show ?thesis by (simp add: re_search.simps)
  next
    case False
    note inb = this
    show ?thesis
    proof (cases "rmatch r (drop pos (take endpos inp))")
      case Nil
      with inb 1(2) have "re_search r inp (Suc pos) endpos = Some m"
        by (simp add: re_search.simps [of r inp pos])
      from 1(1) [OF inb Nil this] show ?thesis by auto
    next
      case (Cons nc rest)
      obtain n caps where nc: "nc = (n, caps)" by (cases nc)
      with Cons inb 1(2) have "m = \<lparr>m_start = pos, m_end = pos + n, m_groups = caps\<rparr>"
        by (simp add: re_search.simps [of r inp pos])
      with Cons nc inb show ?thesis by auto
    qed
  qed
qed

lemma slice_append:
  assumes "i \<le> k" "k \<le> j" "k \<le> length xs"
  shows "slice xs i k @ slice xs k j = slice xs i j"
proof -
  have "take k (take j xs) = take k xs"
    using assms(2) by (simp add: min_def)
  with append_take_drop_id [of k "take j xs"]
  have "take j xs = take k xs @ drop k (take j xs)" by simp
  then have "drop i (take j xs) = drop i (take k xs @ drop k (take j xs))" by simp
  also have "\<dots> = drop i (take k xs) @ drop k (take j xs)"
    using assms(1,3) by simp
  finally show ?thesis by (simp add: slice_def)
qed

lemma tokens_cover_append:
  "tokens_cover s i ts j \<Longrightarrow> tokens_cover s j ts' k \<Longrightarrow> tokens_cover s i (ts @ ts') k"
  by (induction ts arbitrary: i) auto

lemma tokens_cover_concat:
  "tokens_cover s i ts j \<Longrightarrow> i \<le> j \<and> concat (map tok_text ts) = slice s i j"
proof (induction ts arbitrary: i)
  case Nil
  then show ?case by (simp add: slice_def)
next
  case (Cons t ts)
  let ?k = "snd (input_range t)"
  from Cons.prems have t: "i \<le> ?k" "?k \<le> length s" "tok_text t = slice s i ?k"
    and rest: "tokens_cover s ?k ts j"
    by auto
  from Cons.IH [OF rest] have kj: "?k \<le> j" and c: "concat (map tok_text ts) = slice s ?k j"
    by auto
  from slice_append [OF t(1) kj t(2)] t c kj show ?case by simp
qed

lemma nullable_combine:
  "ps \<noteq> [] \<Longrightarrow> \<forall>p\<in>set ps. \<not> nullable p \<Longrightarrow> \<not> nullable (combine_patterns ps)"
  by (induction ps rule: combine_patterns.induct) auto

lemma tokens_cover_end:
  "tokens_cover s i ts j \<Longrightarrow> i \<le> length s \<Longrightarrow> j \<le> length s"
  by (induction ts arbitrary: i) auto

lemma slice_take_drop: "slice xs i (i + n) = take n (drop i xs)"
  by (simp add: slice_def take_drop add.commute)

lemma tokens_step_cover:
  assumes "tokens_step (Lexer pats) s i = Inr (ts, j)"
  shows "tokens_cover s i ts j"
proof -
  from assms have lt: "i < length s"
    by (auto simp: tokens_step_def Let_def split: if_splits)
  show ?thesis
  proof (cases "re_search (combine_patterns (map snd pats)) s i (length s)")
    case None
    with assms lt show ?thesis
      by (auto simp: tokens_step_def Lexer_def Let_def)
  next
    case (Some m)
    from re_search_Some [OF Some] obtain n caps where
      st: "i \<le> m_start m" "m_start m \<le> length s"
      and mt: "(n, caps) \<in> set (rmatch (combine_patterns (map snd pats)) (drop (m_start m) s))"
      and me: "m_end m = m_start m + n" and mg: "m_groups m = caps"
      by auto
    from rmatch_bounds [OF mt] st have nb: "m_start m + n \<le> length s" by auto
    show ?thesis
    proof (cases "pats = []")
      case True
      with assms lt Some show ?thesis
        by (simp add: tokens_step_def Lexer_def Let_def group_specs_from)
    next
      case False
      from find_spec_combined [OF mt False, of "[]" 0] obtain spec where
        fs: "find_spec (group_specs pats) caps = Inr (spec, take n (drop (m_start m) s))"
        by (auto simp: group_specs_from)
      have tx: "take n (drop (m_start m) s) = slice s (m_start m) (m_start m + n)"
        by (simp add: slice_take_drop)
      from assms lt Some fs mg me st nb tx show ?thesis
        by (auto simp: tokens_step_def Lexer_def Let_def split: if_splits)
    qed
  qed
qed

lemma tokens_step_progress:
  assumes "pats \<noteq> []" and "\<forall>p\<in>set pats. \<not> nullable (snd p)" and "i < length s"
  shows "\<exists>ts j. tokens_step (Lexer pats) s i = Inr (ts, j) \<and> i < j"
proof (cases "re_search (combine_patterns (map snd pats)) s i (length s)")
  case None
  with assms(3) show ?thesis
    by (simp add: tokens_step_def Lexer_def Let_def)
next
  case (Some m)
  from re_search_Some [OF Some] obtain n caps where
    st: "i \<le> m_start m"
    and mt: "(n, caps) \<in> set (rmatch (combine_patterns (map snd pats)) (drop (m_start m) s))"
    and me: "m_end m = m_start m + n" and mg: "m_groups m = caps"
    by auto
  from assms(1,2) have "\<not> nullable (combine_patterns (map snd pats))"
    by (intro nullable_combine) auto
  from rmatch_progress [OF this mt] have "0 < n" .
  moreover from find_spec_combined [OF mt assms(1), of "[]" 0] obtain spec where
    "find_spec (group_specs pats) caps = Inr (spec, take n (drop (m_start m) s))"
    by (auto simp: group_specs_from)
  ultimately show ?thesis
    using assms(3) Some st me mg
    by (simp add: tokens_step_def Lexer_def Let_def)
qed

lemma tokens_from_cover_aux:
  "tokens_from lx s i = Some y \<Longrightarrow>
     \<forall>ts. lx = Lexer pats \<longrightarrow> y = Inr ts \<longrightarrow> tokens_cover s i ts (length s)"
proof (induction rule: tokens_from.raw_induct [rotated 1, consumes 1])
  case (1 f lx s i y)
  show ?case
  proof (intro allI impI)
    fix ts
    assume lx: "lx = Lexer pats" and y: "y = Inr ts"
    show "tokens_cover s i ts (length s)"
    proof (cases "i = length s")
      case True
      with 1(2) y show ?thesis by simp
    next
      case False
      note ne = this
      show ?thesis
      proof (cases "tokens_step lx s i")
        case (Inl e)
        with 1(2) y ne show ?thesis by simp
      next
        case (Inr p)
        obtain ts1 j where p: "p = (ts1, j)" by (cases p)
        with Inr have step: "tokens_step lx s i = Inr (ts1, j)" by simp
        with 1(2) y ne obtain r where rec: "f lx s j = Some r"
          and res: "(case r of Inl e \<Rightarrow> Inl e | Inr ts' \<Rightarrow> Inr (ts1 @ ts')) = Inr ts"
          by (auto simp: bind_eq_Some_conv)
        from res obtain ts2 where r: "r = Inr ts2" and ts: "ts = ts1 @ ts2"
          by (cases r) auto
        from 1(1) [OF rec] lx r have "tokens_cover s j ts2 (length s)" by simp
        moreover from step lx have "tokens_cover s i ts1 j"
          by (simp add: tokens_step_cover)
        ultimately show ?thesis using ts by (simp add: tokens_cover_append)
      qed
    qed
  qed
qed

lemma tokens_from_cover:
  "tokens_from (Lexer pats) s i = Some (Inr ts) \<Longrightarrow> tokens_cover s i ts (length s)"
  using tokens_from_cover_aux [of "Lexer pats" s i "Inr ts" pats] by simp

lemma tokens_from_total:
  assumes "pats \<noteq> []" and "\<forall>p\<in>set pats. \<not> nullable (snd p)"
  shows "i \<le> length s \<Longrightarrow> \<exists>ts. tokens_from (Lexer pats) s i = Some (Inr ts)"
proof (induction "length s - i" arbitrary: i rule: less_induct)
  case less
  show ?case
  proof (cases "i = length s")
    case True
    then show ?thesis by (simp add: tokens_from.simps)
  next
    case False
    with less.prems have lt: "i < length s" by simp
    from tokens_step_progress [OF assms lt] obtain ts1 j where
      step: "tokens_step (Lexer pats) s i = Inr (ts1, j)" and ij: "i < j"
      by blast
    from tokens_step_cover [OF step] less.prems have "j \<le> length s"
      by (rule tokens_cover_end)
    with ij less.hyps [of j] obtain ts2 where
      "tokens_from (Lexer pats) s j = Some (Inr ts2)"
      by (auto simp: diff_less_mono2)
    with step False show ?thesis
      by (subst tokens_from.simps) simp
  qed
qed

lemma tokens_from_stuck_aux:
  "tokens_from lx' s' i' = Some y \<Longrightarrow>
     tokens_step lx s i = Inr (ts, i) \<longrightarrow> i \<noteq> length s \<longrightarrow> \<not> (lx' = lx \<and> s' = s \<and> i' = i)"
proof (induction rule: tokens_from.raw_induct [rotated 1, consumes 1])
  case (1 f lx' s' i' y)
  show ?case
  proof (intro impI notI)
    assume step: "tokens_step lx s i = Inr (ts, i)" and ne: "i \<noteq> length s"
      and eq: "lx' = lx \<and> s' = s \<and> i' = i"
    with 1(2) obtain r where "f lx s i = Some r"
      by (auto simp: bind_eq_Some_conv)
    from 1(1) [OF this] step ne show False by simp
  qed
qed

lemma tokens_from_stuck:
  "tokens_step lx s i = Inr (ts, i) \<Longrightarrow> i \<noteq> length s \<Longrightarrow> tokens_from lx s i = None"
  using tokens_from_stuck_aux [of lx s i _ lx s i ts] by (cases "tokens_from lx s i") auto

lemma stuck_example:
  "tokens_step (Lexer [(''a'', Star (lit CHR ''a''))]) ''b'' 0
     = Inr ([\<lparr>kind = Some ''a'', tok_text = [], groups = [], input_range = (0, 0)\<rparr>], 0)"
  by code_simp

section \<open>Properties of the substitution engine\<close>

lemma token_patterns_ok:
  "token_patterns \<noteq> [] \<and> (\<forall>p\<in>set token_patterns. \<not> nullable (snd p))"
  by (simp add: token_patterns_def lit_def)

lemma sql_tokens_total:
  "\<exists>ts. sql_tokens s = Some (Inr ts) \<and> concat (map tok_text ts) = s"
proof -
  from token_patterns_ok tokens_from_total [of token_patterns 0 s]
  obtain ts where ts: "tokens_from (Lexer token_patterns) s 0 = Some (Inr ts)"
    by auto
  from tokens_cover_concat [OF tokens_from_cover [OF ts]]
  have "concat (map tok_text ts) = s" by (simp add: slice_def)
  with ts show ?thesis by (simp add: sql_tokens_def tokens_def)
qed

lemma handle_trivia:
  "is_trivia t \<Longrightarrow> handle_token t state b = Inr (PUSH, tok_text t, state)"
  by (simp add: handle_token_def is_trivia_def)

lemma handle_plain:
  "\<not> is_trivia t \<Longrightarrow> \<not> is_placeholder t \<Longrightarrow>
     handle_token t CHILLIN b = Inr (FLUSH, tok_text t, CHILLIN)"
  by (simp add: handle_token_def is_trivia_def is_placeholder_def)

lemma handle_prefix:
  "is_prefix t \<Longrightarrow>
     handle_token t CHILLIN b =
       Inr (PUSH, tok_text t,
            if kind t = Some ''named parameter prefix'' then IN_PARAMETER else IN_PARAMETER_LENGTH)"
  by (auto simp: handle_token_def is_prefix_def)

lemma handle_malformed:
  "state \<noteq> CHILLIN \<Longrightarrow> \<not> is_trivia t \<Longrightarrow> \<not> is_name t \<Longrightarrow>
     handle_token t state b = Inl MalformedPlaceholder"
  by (simp add: handle_token_def is_trivia_def is_name_def bindE_def)

lemma replace_loop_append:
  "replace_loop (ts @ us) b st =
     (case replace_loop ts b st of Inl e \<Rightarrow> Inl e | Inr st' \<Rightarrow> replace_loop us b st')"
proof (induction ts arbitrary: st)
  case Nil
  show ?case by simp
next
  case (Cons t ts)
  obtain state buffers where st: "st = (state, buffers)" by (cases st)
  show ?case
    by (cases "handle_token t state b") (auto simp: st Cons.IH)
qed

lemma replace_loop_trivia:
  "\<forall>t\<in>set ts. is_trivia t \<Longrightarrow>
     replace_loop ts b (state, out, enq) = Inr (state, out, enq @ map tok_text ts)"
  by (induction ts arbitrary: enq) (simp_all add: handle_trivia)

lemma replace_loop_plain:
  "\<forall>t\<in>set ts. \<not> is_placeholder t \<Longrightarrow>
     \<exists>out' enq'. replace_loop ts b (CHILLIN, out, enq) = Inr (CHILLIN, out', enq')
        \<and> concat (out' @ enq') = concat (out @ enq) @ concat (map tok_text ts)"
proof (induction ts arbitrary: out enq)
  case Nil
  show ?case by simp
next
  case (Cons t ts)
  from Cons.prems have np: "\<not> is_placeholder t" and rest: "\<forall>t\<in>set ts. \<not> is_placeholder t"
    by simp_all
  show ?case
  proof (cases "is_trivia t")
    case True
    from Cons.IH [OF rest, of out "enq @ [tok_text t]"] show ?thesis
      by (simp add: handle_trivia [OF True])
  next
    case False
    from Cons.IH [OF rest, of "out @ enq @ [tok_text t]" "[]"] show ?thesis
      by (simp add: handle_plain [OF False np])
  qed
qed


lemma rmatch_star_class:
  "\<forall>c\<in>set s. in_class k c \<Longrightarrow> rest = [] \<or> \<not> in_class k (hd rest) \<Longrightarrow>
     \<exists>more. rmatch (Star (Atom k)) (s @ rest) = (length s, []) # more"
proof (induction s)
  case Nil
  have eq: "rmatch (Star (Atom k)) rest =
     concat (map (\<lambda>(n, ca).
        if 0 < n \<and> n \<le> length rest
        then map (\<lambda>(m, cb). (n + m, merge_caps ca cb)) (rmatch (Star (Atom k)) (drop n rest))
        else [(0, ca)]) (rmatch (Atom k) rest))
     @ [(0, replicate (ngroups (Atom k)) None)]"
    by (rule rmatch.simps)
  from Nil.prems(2) have "rmatch (Atom k) rest = []"
    by (cases rest) auto
  with eq show ?case by simp
next
  case (Cons c s)
  let ?inp = "(c # s) @ rest"
  have eq: "rmatch (Star (Atom k)) ?inp =
     concat (map (\<lambda>(n, ca).
        if 0 < n \<and> n \<le> length ?inp
        then map (\<lambda>(m, cb). (n + m, merge_caps ca cb)) (rmatch (Star (Atom k)) (drop n ?inp))
        else [(0, ca)]) (rmatch (Atom k) ?inp))
     @ [(0, replicate (ngroups (Atom k)) None)]"
    by (rule rmatch.simps)
  from Cons.prems(1) have c: "in_class k c" and s: "\<forall>c\<in>set s. in_class k c" by simp_all
  from Cons.IH [OF s Cons.prems(2)] obtain more where
    "rmatch (Star (Atom k)) (s @ rest) = (length s, []) # more" by blast
  with eq c show ?case by (simp add: merge_caps_def)
qed

lemma rmatch_quoted_string:
  assumes "squote \<notin> set body"
  shows "\<exists>more. rmatch (Seq (lit squote) (Seq (Star (Atom (NoneOf [squote]))) (lit squote)))
                  (squote # body @ squote # rest) = (length body + 2, []) # more"
proof -
  from assms have "\<forall>c\<in>set body. in_class (NoneOf [squote]) c" by auto
  moreover have "squote # rest = [] \<or> \<not> in_class (NoneOf [squote]) (hd (squote # rest))"
    by simp
  ultimately obtain more where
    "rmatch (Star (Atom (NoneOf [squote]))) (body @ squote # rest) = (length body, []) # more"
    using rmatch_star_class by blast
  then show ?thesis by (simp add: lit_def)
qed

lemma sql_group_specs:
  "group_specs token_patterns =
     [\<lparr>group_index = 0, subgroup_range = (1, 1), token_kind = ''quoted string''\<rparr>,
      \<lparr>group_index = 1, subgroup_range = (2, 3), token_kind = ''quoted identifier''\<rparr>,
      \<lparr>group_index = 3, subgroup_range = (4, 4), token_kind = ''line comment''\<rparr>,
      \<lparr>group_index = 4, subgroup_range = (5, 5), token_kind = ''block comment''\<rparr>,
      \<lparr>group_index = 5, subgroup_range = (6, 6), token_kind = ''named parameter prefix''\<rparr>,
      \<lparr>group_index = 6, subgroup_range = (7, 7),
        token_kind = ''named parameter length prefix''\<rparr>,
      \<lparr>group_index = 7, subgroup_range = (8, 9), token_kind = ''python named parameter''\<rparr>,
      \<lparr>group_index = 9, subgroup_range = (10, 11),
        token_kind = ''python named parameter length''\<rparr>,
      \<lparr>group_index = 11, subgroup_range = (12, 12), token_kind = ''word''\<rparr>,
      \<lparr>group_index = 12, subgroup_range = (13, 13), token_kind = ''whitespace''\<rparr>]"
  by code_simp

lemma sql_tokens_quoted_string:
  assumes "squote \<notin> set body"
  shows "sql_tokens (squote # body @ [squote]) =
           Some (Inr [\<lparr>kind = Some ''quoted string'', tok_text = squote # body @ [squote],
                       groups = [], input_range = (0, length body + 2)\<rparr>])"
proof -
  let ?inp = "squote # body @ [squote]"
  let ?q = "Seq (lit squote) (Seq (Star (Atom (NoneOf [squote]))) (lit squote))"
  from rmatch_quoted_string [OF assms, of "[]"] obtain more where
    q: "rmatch ?q ?inp = (length body + 2, []) # more" by auto
  obtain others where tp: "token_patterns = (''quoted string'', ?q) # others" "others \<noteq> []"
    by (simp add: token_patterns_def squote_def)
  then obtain o1 os where os: "others = o1 # os" by (cases others) auto
  have "\<exists>caps more'. rmatch (combine_patterns (map snd token_patterns)) ?inp
          = (length body + 2, Some ?inp # caps) # more'"
    using q by (simp add: tp os)
  then obtain caps more' where
    c: "rmatch (combine_patterns (map snd token_patterns)) ?inp
          = (length body + 2, Some ?inp # caps) # more'" by blast
  have s: "re_search (combine_patterns (map snd token_patterns)) ?inp 0 (length ?inp)
         = Some \<lparr>m_start = 0, m_end = length body + 2, m_groups = Some ?inp # caps\<rparr>"
    by (subst re_search.simps) (simp add: c)
  have st: "tokens_step (Lexer token_patterns) ?inp 0 =
          Inr ([\<lparr>kind = Some ''quoted string'', tok_text = ?inp,
                  groups = [], input_range = (0, length body + 2)\<rparr>], length body + 2)"
    using s by (simp add: tokens_step_def Lexer_def sql_group_specs slice_def)
  have "tokens_from (Lexer token_patterns) ?inp (length body + 2) = Some (Inr [])"
    by (subst tokens_from.simps) simp
  with st show ?thesis
    by (simp add: sql_tokens_def tokens_def tokens_from.simps [of _ _ 0])
qed

lemma list_all_trivia: "list_all is_trivia ts \<Longrightarrow> \<forall>t\<in>set ts. is_trivia t"
  by (simp add: list_all_iff)

lemma handle_unbound_name:
  assumes "state \<noteq> CHILLIN" and "token_name t = Some name" and "b name = None"
  shows "handle_token t state b = Inr (FLUSH, tok_text t, CHILLIN)"
proof (cases "kind t = Some ''word''")
  case True
  with assms show ?thesis
    by (simp add: handle_token_def token_name_def bindE_def)
next
  case False
  with assms(2) have q: "kind t = Some ''quoted identifier''" and g: "groups t = [Some name]"
    by (auto simp: token_name_def split: if_splits list.splits option.splits)
  with assms(1,3) show ?thesis
    by (simp add: handle_token_def bindE_def)
qed

lemma handle_unbound_python:
  assumes "is_python t" and "groups t = [Some name]" and "b name = None"
  shows "handle_token t CHILLIN b = Inr (FLUSH, tok_text t, CHILLIN)"
  using assms by (auto simp: handle_token_def is_python_def bindE_def)

lemma prefix_not_trivia: "is_prefix p \<Longrightarrow> \<not> is_trivia p \<and> \<not> is_name p"
  by (auto simp: is_prefix_def is_trivia_def is_name_def)

lemma loop_prefix_unbound:
  assumes "is_prefix p" and "list_all is_trivia mid"
    and "token_name t = Some name" and "b name = None"
  shows "replace_loop (p # mid @ t # rest) b (CHILLIN, out, enq) =
           replace_loop rest b (CHILLIN, out @ enq @ tok_text p # map tok_text mid @ [tok_text t], [])"
proof -
  let ?st = "if kind p = Some ''named parameter prefix'' then IN_PARAMETER else IN_PARAMETER_LENGTH"
  have ne: "?st \<noteq> CHILLIN" by simp
  have "replace_loop (p # mid @ t # rest) b (CHILLIN, out, enq)
          = replace_loop (mid @ t # rest) b (?st, out, enq @ [tok_text p])"
    by (simp add: handle_prefix [OF assms(1)])
  also have "\<dots> = replace_loop (t # rest) b (?st, out, (enq @ [tok_text p]) @ map tok_text mid)"
    by (simp only: replace_loop_append replace_loop_trivia [OF list_all_trivia [OF assms(2)]]
          sum.case)
  also have "\<dots> = replace_loop rest b
                     (CHILLIN, out @ enq @ tok_text p # map tok_text mid @ [tok_text t], [])"
    by (simp add: handle_unbound_name [where b = b, OF ne assms(3,4)])
  finally show ?thesis .
qed

lemma loop_prefix_malformed:
  assumes "is_prefix p" and "list_all is_trivia mid" and "\<not> is_trivia t" and "\<not> is_name t"
  shows "replace_loop (p # mid @ t # rest) b (state, out, enq) = Inl MalformedPlaceholder"
proof (cases "state = CHILLIN")
  case True
  let ?st = "if kind p = Some ''named parameter prefix'' then IN_PARAMETER else IN_PARAMETER_LENGTH"
  have ne: "?st \<noteq> CHILLIN" by simp
  have "replace_loop (p # mid @ t # rest) b (state, out, enq)
          = replace_loop (mid @ t # rest) b (?st, out, enq @ [tok_text p])"
    by (simp add: True handle_prefix [OF assms(1)])
  also have "\<dots> = replace_loop (t # rest) b (?st, out, (enq @ [tok_text p]) @ map tok_text mid)"
    by (simp only: replace_loop_append replace_loop_trivia [OF list_all_trivia [OF assms(2)]]
          sum.case)
  also have "\<dots> = Inl MalformedPlaceholder"
    by (simp add: handle_malformed [OF ne assms(3,4)])
  finally show ?thesis .
next
  case False
  from prefix_not_trivia [OF assms(1)] have "\<not> is_trivia p" "\<not> is_name p" by simp_all
  from handle_malformed [OF False this] show ?thesis by simp
qed

lemma loop_prefix_at_end:
  assumes "is_prefix p" and "list_all is_trivia mid"
  shows "\<exists>state. replace_loop (p # mid) b (CHILLIN, out, enq) =
           Inr (state, out, enq @ tok_text p # map tok_text mid)"
proof -
  let ?st = "if kind p = Some ''named parameter prefix'' then IN_PARAMETER else IN_PARAMETER_LENGTH"
  have "replace_loop (p # mid) b (CHILLIN, out, enq)
          = replace_loop mid b (?st, out, enq @ [tok_text p])"
    by (simp add: handle_prefix [OF assms(1)])
  also have "\<dots> = Inr (?st, out, (enq @ [tok_text p]) @ map tok_text mid)"
    by (rule replace_loop_trivia [OF list_all_trivia [OF assms(2)]])
  finally show ?thesis by simp
qed

lemma emit_discards_pending:
  assumes "is_trivia w" and "kind p = Some ''named parameter prefix''"
    and "kind t = Some ''word''" and "b (tok_text t) = Some v" and "to_sql v = Inr part"
  shows "replace_loop (w # p # t # rest) b (CHILLIN, out, enq) =
           replace_loop rest b (CHILLIN, out @ [part], [])"
proof -
  from assms(2) have "is_prefix p" by (simp add: is_prefix_def)
  from handle_prefix [OF this] assms(2)
  have p: "handle_token p CHILLIN b = Inr (PUSH, tok_text p, IN_PARAMETER)" by simp
  from assms(3,4,5)
  have t: "handle_token t IN_PARAMETER b = Inr (EMIT, part, CHILLIN)"
    by (simp add: handle_token_def bindE_def)
  show ?thesis
    by (simp add: handle_trivia [OF assms(1)] p t)
qed

lemma tokenize_partition:
  assumes "tokenize s pats = Some (Inr ts)"
  shows "tokens_cover s 0 ts (length s) \<and> concat (map tok_text ts) = s"
proof -
  from assms have "tokens_from (Lexer pats) s 0 = Some (Inr ts)"
    by (simp add: tokenize_def tokens_def)
  from tokens_from_cover [OF this] have c: "tokens_cover s 0 ts (length s)" .
  from tokens_cover_concat [OF c] c show ?thesis by (simp add: slice_def)
qed

lemma tokenize_total:
  assumes "pats \<noteq> []" and "\<forall>p\<in>set pats. \<not> nullable (snd p)"
  shows "\<exists>ts. tokenize s pats = Some (Inr ts) \<and> concat (map tok_text ts) = s"
proof -
  from tokens_from_total [OF assms, of 0 s] obtain ts where
    "tokenize s pats = Some (Inr ts)"
    by (auto simp: tokenize_def tokens_def)
  with tokenize_partition [OF this] show ?thesis by blast
qed

lemma tokenize_stuck: "tokenize ''b'' [(''a'', Star (lit CHR ''a''))] = None"
  using tokens_from_stuck [OF stuck_example] by (simp add: tokenize_def tokens_def)

lemma handle_bound_length:
  "handle_token \<lparr>kind = Some ''word'', tok_text = name, groups = gs, input_range = r\<rparr>
       IN_PARAMETER_LENGTH (b(name \<mapsto> PyList vs)) = Inr (EMIT, str_nat (length vs), CHILLIN)
   \<and> handle_token \<lparr>kind = Some ''word'', tok_text = name, groups = gs, input_range = r\<rparr>
       IN_PARAMETER_LENGTH (b(name \<mapsto> PyStr s)) = Inr (EMIT, str_nat (length s), CHILLIN)"
  by (simp add: handle_token_def bindE_def)

lemma apply_op_grows: "\<exists>more enq'. apply_op op part (out, enq) = (out @ more, enq')"
  by (cases op) simp_all

lemma replace_loop_grows:
  "replace_loop ts b (state, out, enq) = Inr (state', out', enq') \<Longrightarrow> \<exists>more. out' = out @ more"
proof (induction ts arbitrary: state out enq)
  case Nil
  then show ?case by simp
next
  case (Cons t ts)
  show ?case
  proof (cases "handle_token t state b")
    case (Inl e)
    with Cons.prems show ?thesis by simp
  next
    case (Inr r)
    obtain op part st where r: "r = (op, part, st)" by (cases r)
    from apply_op_grows [of op part out enq] obtain m q where
      a: "apply_op op part (out, enq) = (out @ m, q)" by blast
    with Cons.prems Inr r have "replace_loop ts b (st, out @ m, q) = Inr (state', out', enq')"
      by simp
    from Cons.IH [OF this] show ?thesis by auto
  qed
qed

lemma replace_total: "\<exists>r. replace s b = Some r"
  using sql_tokens_total [of s] by (auto simp: replace_def)

lemma replace_success_split:
  assumes "sql_tokens s = Some (Inr (pre @ mid))" and "replace s b = Some (Inr r)"
  shows "\<exists>st st'. replace_loop pre b (CHILLIN, [], []) = Inr st
           \<and> replace_loop mid b st = Inr st'
           \<and> r = concat (fst (snd st') @ snd (snd st'))"
proof (cases "replace_loop pre b (CHILLIN, [], [])")
  case (Inl e)
  with assms show ?thesis by (simp add: replace_def replace_loop_append)
next
  case (Inr st)
  show ?thesis
  proof (cases "replace_loop mid b st")
    case (Inl e)
    with assms Inr show ?thesis by (simp add: replace_def replace_loop_append)
  next
    case (Inr st')
    with assms \<open>replace_loop pre b (CHILLIN, [], []) = Inr st\<close> show ?thesis
      by (auto simp: replace_def replace_loop_append split: prod.splits)
  qed
qed

lemma replace_keeps_unbound:
  assumes tk: "sql_tokens s = Some (Inr (pre @ p # mid @ t # rest))"
    and h: "is_prefix p" "list_all is_trivia mid" "token_name t = Some name" "b name = None"
    and ok: "replace s b = Some (Inr r)"
  shows "\<exists>before after.
           r = before @ tok_text p @ concat (map tok_text mid) @ tok_text t @ after"
proof -
  from replace_success_split [OF tk ok] obtain st st' where
    pre: "replace_loop pre b (CHILLIN, [], []) = Inr st"
    and post: "replace_loop (p # mid @ t # rest) b st = Inr st'"
    and r: "r = concat (fst (snd st') @ snd (snd st'))"
    by blast
  obtain state out enq where st: "st = (state, out, enq)" by (cases st)
  obtain state' out' enq' where st': "st' = (state', out', enq')" by (cases st')
  have c: "state = CHILLIN"
  proof (rule ccontr)
    assume "state \<noteq> CHILLIN"
    with prefix_not_trivia [OF h(1)] handle_malformed [of state p b] post st
    show False by simp
  qed
  let ?mid = "out @ enq @ tok_text p # map tok_text mid @ [tok_text t]"
  from post st c loop_prefix_unbound [where b = b and rest = rest and out = out and enq = enq, OF h] st'
  have "replace_loop rest b (CHILLIN, ?mid, []) = Inr (state', out', enq')"
    by simp
  from replace_loop_grows [OF this] obtain more where "out' = ?mid @ more" by blast
  with r st' have "r = concat (out @ enq) @ tok_text p @ concat (map tok_text mid) @ tok_text t
                         @ concat (more @ enq')"
    by simp
  then show ?thesis by blast
qed

lemma replace_keeps_quoted_string:
  assumes tk: "sql_tokens s = Some (Inr (pre @ t # rest))"
    and k: "kind t = Some ''quoted string''"
    and ok: "replace s b = Some (Inr r)"
  shows "\<exists>before after. r = before @ tok_text t @ after"
proof -
  from replace_success_split [OF tk ok] obtain st st' where
    pre: "replace_loop pre b (CHILLIN, [], []) = Inr st"
    and post: "replace_loop (t # rest) b st = Inr st'"
    and r: "r = concat (fst (snd st') @ snd (snd st'))"
    by blast
  obtain state out enq where st: "st = (state, out, enq)" by (cases st)
  obtain state' out' enq' where st': "st' = (state', out', enq')" by (cases st')
  from k have nt: "\<not> is_trivia t" "\<not> is_name t" "\<not> is_placeholder t"
    by (simp_all add: is_trivia_def is_name_def is_placeholder_def)
  have c: "state = CHILLIN"
  proof (rule ccontr)
    assume "state \<noteq> CHILLIN"
    with nt handle_malformed [of state t b] post st show False by simp
  qed
  from post st c handle_plain [OF nt(1) nt(3), of b] st'
  have "replace_loop rest b (CHILLIN, out @ enq @ [tok_text t], []) = Inr (state', out', enq')"
    by simp
  from replace_loop_grows [OF this] obtain more where "out' = (out @ enq @ [tok_text t]) @ more"
    by blast
  with r st' have "r = concat (out @ enq) @ tok_text t @ concat (more @ enq')" by simp
  then show ?thesis by blast
qed

subsection \<open>Tokens carry the groups of their pattern; the errors \<open>replace\<close> can raise\<close>

lemma slice_middle:
  "length pre = off \<Longrightarrow> length ca = k \<Longrightarrow>
     slice (pre @ x # ca @ post) (off + 1) (off + 1 + k) = ca"
  by (simp add: slice_def)

lemma find_spec_combined_sound:
  assumes "(n, caps) \<in> set (rmatch (combine_patterns (map snd pats)) s)"
    and "pats \<noteq> []" and "length pre = off"
  shows "\<exists>spec p.
           find_spec (specs_from off pats) (pre @ caps) = Inr (spec, take n s)
           \<and> (token_kind spec, p) \<in> set pats
           \<and> (n, slice (pre @ caps) (fst (subgroup_range spec)) (snd (subgroup_range spec)))
                \<in> set (rmatch p s)"
  using assms
proof (induction pats arbitrary: off pre caps)
  case Nil
  then show ?case by simp
next
  case (Cons np pats)
  obtain name p where np: "np = (name, p)" by (cases np)
  let ?spec = "\<lparr>group_index = off, subgroup_range = (off + 1, off + 1 + ngroups p),
                 token_kind = name\<rparr>"
  have here: "\<exists>spec q.
           find_spec (specs_from off (np # pats)) (pre @ caps) = Inr (spec, take n s)
           \<and> (token_kind spec, q) \<in> set (np # pats)
           \<and> (n, slice (pre @ caps) (fst (subgroup_range spec)) (snd (subgroup_range spec)))
                \<in> set (rmatch q s)"
    if c: "caps = Some (take n s) # ca @ post" and m: "(n, ca) \<in> set (rmatch p s)" for ca post
  proof -
    from rmatch_bounds [OF m] have l: "length ca = ngroups p" by simp
    from slice_middle [OF Cons.prems(3) l, of "Some (take n s)" post]
    have "slice (pre @ caps) (off + 1) (off + 1 + ngroups p) = ca" by (simp add: c)
    with m have "(n, slice (pre @ caps) (fst (subgroup_range ?spec)) (snd (subgroup_range ?spec)))
                   \<in> set (rmatch p s)" by simp
    moreover have "find_spec (specs_from off (np # pats)) (pre @ caps) = Inr (?spec, take n s)"
      using Cons.prems(3) by (simp add: np c nth_append)
    moreover have "(token_kind ?spec, p) \<in> set (np # pats)" by (simp add: np)
    ultimately show ?thesis by blast
  qed
  show ?case
  proof (cases pats)
    case Nil
    with Cons.prems(1) np obtain ca where "caps = Some (take n s) # ca @ []"
      "(n, ca) \<in> set (rmatch p s)"
      by auto
    then show ?thesis by (rule here)
  next
    case (Cons nq rest)
    with Cons.prems(1) np consider
      (left) ca where "caps = Some (take n s) # ca @ replicate (ngroups (combine_patterns (map snd pats))) None"
        "(n, ca) \<in> set (rmatch p s)"
    | (right) cb where "caps = replicate (Suc (ngroups p)) None @ cb"
        "(n, cb) \<in> set (rmatch (combine_patterns (map snd pats)) s)"
      by auto
    then show ?thesis
    proof cases
      case left
      then show ?thesis by (rule here)
    next
      case right
      let ?pre = "pre @ replicate (Suc (ngroups p)) None"
      have lp: "length ?pre = off + 1 + ngroups p"
        using Cons.prems(3) by simp
      from Cons have ne: "pats \<noteq> []" by simp
      from Cons.IH [OF right(2) ne lp] obtain spec q where
        f: "find_spec (specs_from (off + 1 + ngroups p) pats) (?pre @ cb) = Inr (spec, take n s)"
        and k: "(token_kind spec, q) \<in> set pats"
        and g: "(n, slice (?pre @ cb) (fst (subgroup_range spec)) (snd (subgroup_range spec)))
                  \<in> set (rmatch q s)"
        by blast
      from f right(1) Cons.prems(3)
      have "find_spec (specs_from off (np # pats)) (pre @ caps) = Inr (spec, take n s)"
        by (simp add: np nth_append)
      moreover from k have "(token_kind spec, q) \<in> set (np # pats)" by simp
      moreover from g right(1)
      have "(n, slice (pre @ caps) (fst (subgroup_range spec)) (snd (subgroup_range spec)))
              \<in> set (rmatch q s)" by simp
      ultimately show ?thesis by blast
    qed
  qed
qed

lemma tokens_step_sound:
  assumes "tokens_step (Lexer pats) s i = Inr (ts, j)"
  shows "list_all (token_ok pats) ts"
proof (cases "re_search (combine_patterns (map snd pats)) s i (length s)")
  case None
  with assms show ?thesis
    by (auto simp: tokens_step_def Lexer_def Let_def token_ok_def split: if_splits)
next
  case (Some m)
  from re_search_Some [OF Some] obtain n caps where
    mt: "(n, caps) \<in> set (rmatch (combine_patterns (map snd pats)) (drop (m_start m) s))"
    and mg: "m_groups m = caps"
    by auto
  show ?thesis
  proof (cases "pats = []")
    case True
    with assms Some show ?thesis
      by (simp add: tokens_step_def Lexer_def Let_def group_specs_from split: if_splits)
  next
    case False
    from find_spec_combined_sound [OF mt False, of "[]" 0] obtain spec p where
      fs: "find_spec (group_specs pats) caps = Inr (spec, take n (drop (m_start m) s))"
      and k: "(token_kind spec, p) \<in> set pats"
      and g: "(n, slice caps (fst (subgroup_range spec)) (snd (subgroup_range spec)))
                \<in> set (rmatch p (drop (m_start m) s))"
      by (auto simp: group_specs_from)
    from k g have "token_ok pats
        \<lparr>kind = Some (token_kind spec), tok_text = take n (drop (m_start m) s),
          groups = slice caps (fst (subgroup_range spec)) (snd (subgroup_range spec)),
          input_range = (m_start m, m_end m)\<rparr>"
      by (auto simp: token_ok_def)
    moreover have "\<And>x r. token_ok pats \<lparr>kind = None, tok_text = x, groups = [], input_range = r\<rparr>"
      by (simp add: token_ok_def)
    ultimately show ?thesis using assms Some fs mg
      by (auto simp: tokens_step_def Lexer_def Let_def split: if_splits)
  qed
qed

lemma tokens_from_sound_aux:
  "tokens_from lx s i = Some y \<Longrightarrow>
     \<forall>ts. lx = Lexer pats \<longrightarrow> y = Inr ts \<longrightarrow> list_all (token_ok pats) ts"
proof (induction rule: tokens_from.raw_induct [rotated 1, consumes 1])
  case (1 f lx s i y)
  show ?case
  proof (intro allI impI)
    fix ts
    assume lx: "lx = Lexer pats" and y: "y = Inr ts"
    show "list_all (token_ok pats) ts"
    proof (cases "i = length s")
      case True
      with 1(2) y show ?thesis by simp
    next
      case False
      note ne = this
      show ?thesis
      proof (cases "tokens_step lx s i")
        case (Inl e)
        with 1(2) y ne show ?thesis by simp
      next
        case (Inr q)
        obtain ts1 j where q: "q = (ts1, j)" by (cases q)
        with Inr have step: "tokens_step lx s i = Inr (ts1, j)" by simp
        with 1(2) y ne obtain r where rec: "f lx s j = Some r"
          and res: "(case r of Inl e \<Rightarrow> Inl e | Inr ts' \<Rightarrow> Inr (ts1 @ ts')) = Inr ts"
          by (auto simp: bind_eq_Some_conv)
        from res obtain ts2 where r: "r = Inr ts2" and ts: "ts = ts1 @ ts2"
          by (cases r) auto
        from 1(1) [OF rec] lx r have "list_all (token_ok pats) ts2" by simp
        moreover from step lx have "list_all (token_ok pats) ts1"
          by (simp add: tokens_step_sound)
        ultimately show ?thesis using ts by simp
      qed
    qed
  qed
qed

lemma sql_tokens_sound:
  "sql_tokens s = Some (Inr ts) \<Longrightarrow> list_all (token_ok token_patterns) ts"
  using tokens_from_sound_aux [of "Lexer token_patterns" s 0 "Inr ts" token_patterns]
  by (simp add: sql_tokens_def tokens_def)

lemma rmatch_nogroups: "ngroups r = 0 \<Longrightarrow> (n, g) \<in> set (rmatch r s) \<Longrightarrow> g = []"
  using rmatch_bounds [of n g r s] by simp

lemma definite_caps:
  "definite r \<Longrightarrow> (n, g) \<in> set (rmatch r s) \<Longrightarrow> list_all (\<lambda>c. c \<noteq> None) g"
proof (induction r arbitrary: n g s)
  case (Seq a b)
  from Seq.prems(2) obtain n1 c1 n2 c2 where
    a: "(n1, c1) \<in> set (rmatch a s)" and b: "(n2, c2) \<in> set (rmatch b (drop n1 s))"
    and e: "g = c1 @ c2"
    by auto
  from Seq.prems(1) have "definite a" "definite b" by simp_all
  with Seq.IH a b e show ?case by simp
next
  case (Alt a b)
  from Alt.prems(1) have "ngroups (Alt a b) = 0" by simp
  from rmatch_nogroups [OF this Alt.prems(2)] show ?case by simp
next
  case (Star a)
  from Star.prems(1) have "ngroups (Star a) = 0" by simp
  from rmatch_nogroups [OF this Star.prems(2)] show ?case by simp
next
  case (Plus a)
  from Plus.prems(1) have "ngroups (Plus a) = 0" by simp
  from rmatch_nogroups [OF this Plus.prems(2)] show ?case by simp
next
  case (Group a)
  from Group.prems(2) obtain c where "(n, c) \<in> set (rmatch a s)" "g = Some (take n s) # c"
    by auto
  with Group.IH [of n c s] Group.prems(1) show ?case by simp
next
  case (Atom k)
  then show ?case by (auto split: list.splits if_splits)
next
  case Eps
  then show ?case by simp
next
  case Eol
  then show ?case by (auto split: if_splits)
qed

lemma one_definite_group:
  assumes "definite p" and "ngroups p = 1" and "(n, g) \<in> set (rmatch p s)"
  shows "\<exists>x. g = [Some x]"
proof -
  from rmatch_bounds [OF assms(3)] assms(2) have "length g = 1" by simp
  then obtain c where g: "g = [c]" by (cases g) auto
  with definite_caps [OF assms(1,3)] show ?thesis by auto
qed

lemma sql_token_groups:
  assumes "token_ok token_patterns t"
    and "kind t \<in> {Some ''quoted identifier'', Some ''python named parameter'',
                   Some ''python named parameter length''}"
  shows "\<exists>x. groups t = [Some x]"
proof -
  from assms obtain name p s n where
    k: "kind t = Some name" and p: "(name, p) \<in> set token_patterns"
    and m: "(n, groups t) \<in> set (rmatch p s)"
    by (auto simp: token_ok_def)
  from assms(2) k p have "definite p \<and> ngroups p = 1"
    by (auto simp: token_patterns_def lit_def)
  with m show ?thesis by (auto intro: one_definite_group)
qed

lemma sequenceE_error:
  "sequenceE ms = Inl e \<Longrightarrow> \<exists>m\<in>set ms. m = Inl e"
  by (induction ms) (auto split: sum.splits)

lemma to_sql_error: "to_sql v = Inl e \<Longrightarrow> e = UnsupportedValueType"
proof (induction v rule: to_sql.induct)
  case (5 vs)
  from 5(2) have "sequenceE (map to_sql vs) = Inl e"
    by (auto simp: bindE_def split: sum.splits)
  from sequenceE_error [OF this] obtain v where "v \<in> set vs" "to_sql v = Inl e" by auto
  with 5(1) show ?case by blast
qed simp_all

lemma py_len_error: "py_len v = Inl e \<Longrightarrow> e = LengthNotSupported"
  by (cases v rule: py_len.cases) auto

lemma handle_token_error:
  assumes "token_ok token_patterns t" and "handle_token t state b = Inl e"
  shows "e \<in> {MalformedPlaceholder, UnsupportedValueType, LengthNotSupported}"
proof -
  have g: "\<exists>x. groups t = [Some x]"
    if "kind t \<in> {Some ''quoted identifier'', Some ''python named parameter'',
                   Some ''python named parameter length''}"
    using sql_token_groups [OF assms(1) that] .
  show ?thesis
  proof (cases "is_trivia t")
    case True
    with assms(2) show ?thesis by (simp add: handle_trivia)
  next
    case False
    note nt = this
    show ?thesis
    proof (cases "kind t \<in> {Some ''quoted identifier'', Some ''python named parameter'',
                   Some ''python named parameter length''}")
      case True
      from g [OF True] obtain x where x: "groups t = [Some x]" by blast
      with assms(2) nt show ?thesis
        by (cases state)
           (auto simp: handle_token_def is_trivia_def bindE_def
              split: if_splits option.splits sum.splits
              dest: to_sql_error py_len_error)
    next
      case False
      with assms(2) nt show ?thesis
        by (cases state)
           (auto simp: handle_token_def is_trivia_def bindE_def
              split: if_splits option.splits sum.splits
              dest: to_sql_error py_len_error)
    qed
  qed
qed

lemma replace_loop_error:
  "list_all (token_ok token_patterns) ts \<Longrightarrow> replace_loop ts b st = Inl e \<Longrightarrow>
     e \<in> {MalformedPlaceholder, UnsupportedValueType, LengthNotSupported}"
proof (induction ts arbitrary: st)
  case Nil
  then show ?case by simp
next
  case (Cons t ts)
  obtain state buffers where st: "st = (state, buffers)" by (cases st)
  from Cons.prems(1) have t: "token_ok token_patterns t"
    and ts: "list_all (token_ok token_patterns) ts" by simp_all
  show ?case
  proof (cases "handle_token t state b")
    case (Inl e')
    with Cons.prems(2) st have "e' = e" by simp
    with handle_token_error [OF t Inl] show ?thesis by simp
  next
    case (Inr r)
    obtain op part state' where "r = (op, part, state')" by (cases r)
    with Inr Cons.prems(2) st
    have "replace_loop ts b (state', apply_op op part buffers) = Inl e" by simp
    from Cons.IH [OF ts this] show ?thesis .
  qed
qed

lemma replace_error:
  assumes "replace s b = Some (Inl e)"
  shows "e \<in> {MalformedPlaceholder, UnsupportedValueType, LengthNotSupported}"
proof -
  from sql_tokens_total [of s] obtain ts where ts: "sql_tokens s = Some (Inr ts)" by blast
  from sql_tokens_sound [OF ts] have ok: "list_all (token_ok token_patterns) ts" .
  from assms ts have "replace_loop ts b (CHILLIN, [], []) = Inl e"
    by (auto simp: replace_def split: sum.splits)
  from replace_loop_error [OF ok this] show ?thesis .
qed

lemma handle_token_no_bindings:
  assumes "token_ok token_patterns t"
  shows "handle_token t state Map.empty = Inl MalformedPlaceholder
       \<or> (\<exists>op state'. handle_token t state Map.empty = Inr (op, tok_text t, state')
              \<and> op \<noteq> EMIT)"
proof (cases "kind t \<in> {Some ''quoted identifier'', Some ''python named parameter'',
                   Some ''python named parameter length''}")
  case True
  from sql_token_groups [OF assms True] obtain x where "groups t = [Some x]" by blast
  then show ?thesis
    by (auto simp: handle_token_def bindE_def)
next
  case False
  then show ?thesis
    by (auto simp: handle_token_def bindE_def)
qed

lemma replace_loop_no_bindings:
  "list_all (token_ok token_patterns) ts \<Longrightarrow>
     replace_loop ts Map.empty (state, out, enq) = Inl MalformedPlaceholder
     \<or> (\<exists>state' out' enq'. replace_loop ts Map.empty (state, out, enq) = Inr (state', out', enq')
           \<and> concat (out' @ enq') = concat (out @ enq) @ concat (map tok_text ts))"
proof (induction ts arbitrary: state out enq)
  case Nil
  show ?case by simp
next
  case (Cons t ts)
  from Cons.prems have t: "token_ok token_patterns t"
    and ts: "list_all (token_ok token_patterns) ts" by simp_all
  from handle_token_no_bindings [OF t, of state] show ?case
  proof
    assume "handle_token t state Map.empty = Inl MalformedPlaceholder"
    then show ?thesis by simp
  next
    assume "\<exists>op state'. handle_token t state Map.empty = Inr (op, tok_text t, state')
              \<and> op \<noteq> EMIT"
    then obtain op state' where h: "handle_token t state Map.empty = Inr (op, tok_text t, state')"
      and op: "op \<noteq> EMIT" by blast
    from op obtain out1 enq1 where a: "apply_op op (tok_text t) (out, enq) = (out1, enq1)"
      and c: "concat (out1 @ enq1) = concat (out @ enq) @ tok_text t"
      by (cases op) auto
    from Cons.IH [OF ts, of state' out1 enq1] h a c show ?thesis by auto
  qed
qed

lemma replace_no_bindings:
  "replace s Map.empty = Some (Inr s) \<or> replace s Map.empty = Some (Inl MalformedPlaceholder)"
proof -
  from sql_tokens_total [of s] obtain ts where ts: "sql_tokens s = Some (Inr ts)"
    and c: "concat (map tok_text ts) = s" by blast
  from sql_tokens_sound [OF ts] have ok: "list_all (token_ok token_patterns) ts" .
  from replace_loop_no_bindings [OF ok, of CHILLIN "[]" "[]"] ts c show ?thesis
    by (auto simp: replace_def)
qed

section \<open>The claims about the tokenizer and the substitution engine\<close>

text \<open>
  C1. For the template \<^verbatim>\<open>select * from t where id = :x\<close> with \<^verbatim>\<open>x\<close> bound to 5 the
  statement to be expected is \<^verbatim>\<open>select * from t where id = 5\<close>. The code returns it
  without the space before the value: the whitespace token in front of the prefix is
  enqueued like the prefix itself, and the \<open>EMIT\<close> for the bound name discards everything
  enqueued (lemma \<open>emit_discards_pending\<close>).
\<close>

theorem replace_drops_space_before_value:
  "replace ''select * from t where id = :x'' [''x'' \<mapsto> PyInt 5]
     = Some (Inr ''select * from t where id =5'')"
  by code_simp

text \<open>
  C2. For the template \<^verbatim>\<open>select #:ids\<close> with \<^verbatim>\<open>ids\<close> bound to the list \<^verbatim>\<open>[1, 2, 3]\<close> the
  statement to be expected is \<^verbatim>\<open>select 3\<close>. The length is computed as stated (lemma
  \<open>handle_bound_length\<close>), but the code returns \<^verbatim>\<open>select3\<close>: the space before the prefix
  is discarded together with the prefix.
\<close>

theorem replace_drops_space_before_length:
  "replace ''select #:ids'' [''ids'' \<mapsto> PyList [PyInt 1, PyInt 2, PyInt 3]]
     = Some (Inr ''select3'')"
  by code_simp

text \<open>
  C3. The texts of the tokens of any input, for any set of patterns, should concatenate
  to the input. With the one pattern \<^verbatim>\<open>a*\<close> and the input \<^verbatim>\<open>b\<close> a pass through the
  loop at cursor 0 yields an empty token and leaves the cursor at 0, so the generator
  repeats that token for ever and no list of tokens whose texts make up the input is
  ever produced. (Whenever the generator finishes, the property holds: lemma
  \<open>tokenize_partition\<close>.)
\<close>

theorem tokenize_empty_match_no_partition:
  "tokens_step (Lexer [(''a'', Star (lit CHR ''a''))]) ''b'' 0
     = Inr ([\<lparr>kind = Some ''a'', tok_text = [], groups = [], input_range = (0, 0)\<rparr>], 0)
   \<and> \<not> (\<exists>ts. tokenize ''b'' [(''a'', Star (lit CHR ''a''))] = Some (Inr ts)
            \<and> concat (map tok_text ts) = ''b'')"
  using stuck_example tokenize_stuck by simp

text \<open>
  C4. Tokenization should terminate for every input and every set of valid patterns.
  With the one pattern \<^verbatim>\<open>a*\<close> and the input \<^verbatim>\<open>b\<close> it never returns. (It does terminate
  whenever there is a pattern and no pattern can match the empty string: lemma
  \<open>tokenize_total\<close>.)
\<close>

theorem tokenize_empty_match_never_finishes:
  "tokenize ''b'' [(''a'', Star (lit CHR ''a''))] = None"
  by (rule tokenize_stuck)

text \<open>
  C5. Every statement has tokens, and if none of them is a value prefix, a length prefix
  or a python-style placeholder, then \<open>replace\<close> returns the statement unchanged, whatever
  the bindings are.
\<close>

theorem replace_identity_without_placeholders:
  "\<exists>ts. sql_tokens s = Some (Inr ts)
     \<and> (list_all (\<lambda>t. \<not> is_placeholder t) ts \<longrightarrow> replace s b = Some (Inr s))"
proof -
  from sql_tokens_total [of s] obtain ts where
    ts: "sql_tokens s = Some (Inr ts)" and c: "concat (map tok_text ts) = s"
    by blast
  have "replace s b = Some (Inr s)" if "list_all (\<lambda>t. \<not> is_placeholder t) ts"
  proof -
    from that have "\<forall>t\<in>set ts. \<not> is_placeholder t" by (simp add: list_all_iff)
    from replace_loop_plain [OF this, of b "[]" "[]"] obtain out' enq' where
      "replace_loop ts b (CHILLIN, [], []) = Inr (CHILLIN, out', enq')"
      "concat (out' @ enq') = concat (map tok_text ts)"
      by auto
    with ts c show ?thesis by (simp add: replace_def)
  qed
  with ts show ?thesis by blast
qed

theorem replace_identity_witness:
  "(\<exists>ts. sql_tokens ''a ':x' -- @y'' = Some (Inr ts) \<and> list_all (\<lambda>t. \<not> is_placeholder t) ts)
   \<and> replace ''a ':x' -- @y'' [''x'' \<mapsto> PyInt 1, ''y'' \<mapsto> PyInt 2] = Some (Inr ''a ':x' -- @y'')"
proof -
  from replace_identity_without_placeholders
         [of "''a ':x' -- @y''" "[''x'' \<mapsto> PyInt 1, ''y'' \<mapsto> PyInt 2]"]
  obtain ts where ts: "sql_tokens ''a ':x' -- @y'' = Some (Inr ts)"
    and imp: "list_all (\<lambda>t. \<not> is_placeholder t) ts \<longrightarrow>
                replace ''a ':x' -- @y'' [''x'' \<mapsto> PyInt 1, ''y'' \<mapsto> PyInt 2]
                  = Some (Inr ''a ':x' -- @y'')"
    by blast
  have "case sql_tokens ''a ':x' -- @y'' of
          Some (Inr ts) \<Rightarrow> list_all (\<lambda>t. \<not> is_placeholder t) ts | _ \<Rightarrow> False"
    by code_simp
  with ts have "list_all (\<lambda>t. \<not> is_placeholder t) ts" by simp
  with ts imp show ?thesis by blast
qed

text \<open>
  C6. A placeholder whose name is not bound raises nothing and is left as written. In
  the loop of \<open>replace\<close>: a prefix, any comments and whitespace after it, and a word or
  quoted identifier whose name is not bound are committed to the output exactly as
  they stand, after whatever was pending, and the parser is back in \<open>CHILLIN\<close>; so in
  every statement whose tokens contain such a placeholder, whatever \<open>replace\<close> returns
  contains the placeholder as written, prefix included. A python-style placeholder
  whose name is not bound is committed as it stands. With no bindings at all, \<open>replace\<close>
  returns the statement unchanged unless a prefix is followed by something that is not
  a name; in particular \<^verbatim>\<open>select :missing\<close> is returned unchanged.
\<close>

theorem unbound_placeholder_passes_through:
  "(is_prefix p \<and> list_all is_trivia mid \<and> token_name t = Some name \<and> b name = None \<longrightarrow>
      replace_loop (p # mid @ t # rest) b (CHILLIN, out, enq) =
        replace_loop rest b
          (CHILLIN, out @ enq @ tok_text p # map tok_text mid @ [tok_text t], [])
      \<and> (sql_tokens s = Some (Inr (pre @ p # mid @ t # rest)) \<and> replace s b = Some (Inr r) \<longrightarrow>
           (\<exists>before after.
              r = before @ tok_text p @ concat (map tok_text mid) @ tok_text t @ after)))
   \<and> (is_python t \<and> groups t = [Some name] \<and> b name = None \<longrightarrow>
      replace_loop (t # rest) b (CHILLIN, out, enq) =
        replace_loop rest b (CHILLIN, out @ enq @ [tok_text t], []))
   \<and> (replace s Map.empty = Some (Inr s)
        \<or> replace s Map.empty = Some (Inl MalformedPlaceholder))
   \<and> replace ''select :missing'' Map.empty = Some (Inr ''select :missing'')"
proof (intro conjI impI)
  show "replace s Map.empty = Some (Inr s)
        \<or> replace s Map.empty = Some (Inl MalformedPlaceholder)"
    by (rule replace_no_bindings)
next
  assume "is_prefix p \<and> list_all is_trivia mid \<and> token_name t = Some name \<and> b name = None"
  then have h: "is_prefix p" "list_all is_trivia mid" "token_name t = Some name" "b name = None"
    by simp_all
  then show "replace_loop (p # mid @ t # rest) b (CHILLIN, out, enq) =
        replace_loop rest b
          (CHILLIN, out @ enq @ tok_text p # map tok_text mid @ [tok_text t], [])"
    by (rule loop_prefix_unbound)
  assume "sql_tokens s = Some (Inr (pre @ p # mid @ t # rest)) \<and> replace s b = Some (Inr r)"
  then have "sql_tokens s = Some (Inr (pre @ p # mid @ t # rest))" "replace s b = Some (Inr r)"
    by simp_all
  from replace_keeps_unbound [OF this(1) h this(2)]
  show "\<exists>before after. r = before @ tok_text p @ concat (map tok_text mid) @ tok_text t @ after" .
next
  assume "is_python t \<and> groups t = [Some name] \<and> b name = None"
  then show "replace_loop (t # rest) b (CHILLIN, out, enq) =
        replace_loop rest b (CHILLIN, out @ enq @ [tok_text t], [])"
    by (simp add: handle_unbound_python)
next
  show "replace ''select :missing'' Map.empty = Some (Inr ''select :missing'')"
    by code_simp
qed

theorem unbound_placeholder_witness:
  "is_prefix \<lparr>kind = Some ''named parameter prefix'', tok_text = '':'', groups = [],
               input_range = (7, 8)\<rparr>
   \<and> list_all is_trivia []
   \<and> token_name \<lparr>kind = Some ''word'', tok_text = ''missing'', groups = [],
                  input_range = (8, 15)\<rparr> = Some ''missing''
   \<and> is_python \<lparr>kind = Some ''python named parameter'', tok_text = ''%(missing)s'',
                 groups = [Some ''missing''], input_range = (0, 11)\<rparr>
   \<and> [''x'' \<mapsto> PyInt 1] ''missing'' = None
   \<and> sql_tokens ''select :missing'' =
       Some (Inr ([\<lparr>kind = Some ''word'', tok_text = ''select'', groups = [],
                     input_range = (0, 6)\<rparr>,
                   \<lparr>kind = Some ''whitespace'', tok_text = '' '', groups = [],
                     input_range = (6, 7)\<rparr>]
                  @ \<lparr>kind = Some ''named parameter prefix'', tok_text = '':'', groups = [],
                      input_range = (7, 8)\<rparr>
                  # [] @ \<lparr>kind = Some ''word'', tok_text = ''missing'', groups = [],
                           input_range = (8, 15)\<rparr> # []))
   \<and> replace ''select :missing'' [''x'' \<mapsto> PyInt 1] = Some (Inr ''select :missing'')
   \<and> (\<exists>before after. ''select :missing'' = before @ '':'' @ concat (map tok_text []) @ ''missing'' @ after)
   \<and> replace_loop
        [\<lparr>kind = Some ''named parameter prefix'', tok_text = '':'', groups = [],
           input_range = (7, 8)\<rparr>,
         \<lparr>kind = Some ''word'', tok_text = ''missing'', groups = [], input_range = (8, 15)\<rparr>]
        [''x'' \<mapsto> PyInt 1] (CHILLIN, [''select''], ['' ''])
       = Inr (CHILLIN, [''select'', '' '', '':'', ''missing''], [])
   \<and> replace_loop
        [\<lparr>kind = Some ''python named parameter'', tok_text = ''%(missing)s'',
           groups = [Some ''missing''], input_range = (0, 11)\<rparr>]
        [''x'' \<mapsto> PyInt 1] (CHILLIN, [''select''], ['' ''])
       = Inr (CHILLIN, [''select'', '' '', ''%(missing)s''], [])"
proof -
  let ?s = "\<lparr>kind = Some ''word'', tok_text = ''select'', groups = [], input_range = (0, 6)\<rparr>"
  let ?w = "\<lparr>kind = Some ''whitespace'', tok_text = '' '', groups = [], input_range = (6, 7)\<rparr>"
  let ?p = "\<lparr>kind = Some ''named parameter prefix'', tok_text = '':'', groups = [],
             input_range = (7, 8)\<rparr>"
  let ?t = "\<lparr>kind = Some ''word'', tok_text = ''missing'', groups = [], input_range = (8, 15)\<rparr>"
  let ?y = "\<lparr>kind = Some ''python named parameter'', tok_text = ''%(missing)s'',
             groups = [Some ''missing''], input_range = (0, 11)\<rparr>"
  let ?b = "[''x'' \<mapsto> PyInt 1]"
  have h1: "is_prefix ?p \<and> list_all is_trivia [] \<and> token_name ?t = Some ''missing''
              \<and> ?b ''missing'' = None"
    by (simp add: is_prefix_def token_name_def)
  have h2: "is_python ?y \<and> groups ?y = [Some ''missing''] \<and> ?b ''missing'' = None"
    by (simp add: is_python_def)
  have tk: "sql_tokens ''select :missing'' = Some (Inr ([?s, ?w] @ ?p # [] @ ?t # []))"
    by code_simp
  have rp: "replace ''select :missing'' ?b = Some (Inr ''select :missing'')"
    by code_simp
  note inst = unbound_placeholder_passes_through
               [where name = "''missing''" and b = ?b and rest = "[]"
                  and out = "[''select'']" and enq = "['' '']"
                  and s = "''select :missing''" and pre = "[?s, ?w]"
                  and r = "''select :missing''"]
  from inst [where p = ?p and mid = "[]" and t = ?t] h1 tk rp
  have r1: "replace_loop [?p, ?t] ?b (CHILLIN, [''select''], ['' ''])
              = Inr (CHILLIN, [''select'', '' '', '':'', ''missing''], [])"
    and r3: "\<exists>before after. ''select :missing''
                = before @ '':'' @ concat (map tok_text []) @ ''missing'' @ after"
    by simp_all
  from inst [where p = ?y and mid = "[]" and t = ?y] h2
  have r2: "replace_loop [?y] ?b (CHILLIN, [''select''], ['' ''])
              = Inr (CHILLIN, [''select'', '' '', ''%(missing)s''], [])"
    by simp
  from h1 h2 tk rp r1 r2 r3 show ?thesis by simp
qed

text \<open>
  C7, as stated: a prefix followed by a token that is neither a word nor a quoted
  identifier makes \<open>replace\<close> fail with \<open>MalformedPlaceholder\<close>, for every template and
  every bindings. In \<^verbatim>\<open>#:n::\<close> the third token is a prefix and the fourth is not a name,
  but with \<^verbatim>\<open>n\<close> bound to 5 the length placeholder in front raises first, and the error
  is the one of \<^verbatim>\<open>len\<close>.
\<close>

theorem malformed_claim_counterexample:
  "sql_tokens ''#:n::'' =
     Some (Inr [\<lparr>kind = Some ''named parameter length prefix'', tok_text = ''#:'',
                  groups = [], input_range = (0, 2)\<rparr>,
                \<lparr>kind = Some ''word'', tok_text = ''n'', groups = [], input_range = (2, 3)\<rparr>,
                \<lparr>kind = Some ''named parameter prefix'', tok_text = '':'',
                  groups = [], input_range = (3, 4)\<rparr>,
                \<lparr>kind = Some ''named parameter prefix'', tok_text = '':'',
                  groups = [], input_range = (4, 5)\<rparr>])
   \<and> replace ''#:n::'' [''n'' \<mapsto> PyInt 5] = Some (Inl LengthNotSupported)"
proof (intro conjI)
  show "sql_tokens ''#:n::'' =
     Some (Inr [\<lparr>kind = Some ''named parameter length prefix'', tok_text = ''#:'',
                  groups = [], input_range = (0, 2)\<rparr>,
                \<lparr>kind = Some ''word'', tok_text = ''n'', groups = [], input_range = (2, 3)\<rparr>,
                \<lparr>kind = Some ''named parameter prefix'', tok_text = '':'',
                  groups = [], input_range = (3, 4)\<rparr>,
                \<lparr>kind = Some ''named parameter prefix'', tok_text = '':'',
                  groups = [], input_range = (4, 5)\<rparr>])"
    by code_simp
  show "replace ''#:n::'' [''n'' \<mapsto> PyInt 5] = Some (Inl LengthNotSupported)"
    by code_simp
qed

text \<open>
  C7, amended. If the tokens of the statement contain a prefix followed, after any
  comments and whitespace, by a token that is neither a word nor a quoted identifier,
  then \<open>replace\<close> fails: with the error raised by the tokens in front of that prefix
  if they raise one, and with \<open>MalformedPlaceholder\<close> otherwise. If the tokens end with a
  prefix (and comments or whitespace after it) that is reached in state \<open>CHILLIN\<close>,
  \<open>replace\<close> returns: the result is what was committed and pending, followed by the
  prefix and what follows it, as written.
\<close>

theorem malformed_placeholder:
  "(sql_tokens s = Some (Inr (pre @ p # mid @ t # rest)) \<and> is_prefix p
      \<and> list_all is_trivia mid \<and> \<not> is_trivia t \<and> \<not> is_name t \<longrightarrow>
      replace s b =
        Some (Inl (case replace_loop pre b (CHILLIN, [], []) of
                     Inl e \<Rightarrow> e
                   | Inr st \<Rightarrow> MalformedPlaceholder)))
   \<and> (sql_tokens s = Some (Inr (pre @ p # mid)) \<and> is_prefix p \<and> list_all is_trivia mid
      \<and> replace_loop pre b (CHILLIN, [], []) = Inr (CHILLIN, out, enq) \<longrightarrow>
      replace s b = Some (Inr (concat (out @ enq) @ tok_text p @ concat (map tok_text mid))))"
proof (intro conjI impI)
  assume "sql_tokens s = Some (Inr (pre @ p # mid @ t # rest)) \<and> is_prefix p
      \<and> list_all is_trivia mid \<and> \<not> is_trivia t \<and> \<not> is_name t"
  then have tk: "sql_tokens s = Some (Inr (pre @ p # mid @ t # rest))"
    and h: "is_prefix p" "list_all is_trivia mid" "\<not> is_trivia t" "\<not> is_name t"
    by simp_all
  show "replace s b =
        Some (Inl (case replace_loop pre b (CHILLIN, [], []) of
                     Inl e \<Rightarrow> e
                   | Inr st \<Rightarrow> MalformedPlaceholder))"
  proof (cases "replace_loop pre b (CHILLIN, [], [])")
    case (Inl e)
    with tk show ?thesis by (simp add: replace_def replace_loop_append)
  next
    case (Inr st)
    obtain state out enq where st: "st = (state, out, enq)" by (cases st)
    from loop_prefix_malformed [OF h]
    have "replace_loop (p # mid @ t # rest) b (state, out, enq) = Inl MalformedPlaceholder" .
    with tk Inr st show ?thesis by (simp add: replace_def replace_loop_append)
  qed
next
  assume "sql_tokens s = Some (Inr (pre @ p # mid)) \<and> is_prefix p \<and> list_all is_trivia mid
      \<and> replace_loop pre b (CHILLIN, [], []) = Inr (CHILLIN, out, enq)"
  then have tk: "sql_tokens s = Some (Inr (pre @ p # mid))"
    and h: "is_prefix p" "list_all is_trivia mid"
    and pre: "replace_loop pre b (CHILLIN, [], []) = Inr (CHILLIN, out, enq)"
    by simp_all
  from loop_prefix_at_end [OF h, of b out enq] obtain state where
    "replace_loop (p # mid) b (CHILLIN, out, enq) =
       Inr (state, out, enq @ tok_text p # map tok_text mid)"
    by blast
  with tk pre
  show "replace s b = Some (Inr (concat (out @ enq) @ tok_text p @ concat (map tok_text mid)))"
    by (simp add: replace_def replace_loop_append)
qed

theorem malformed_placeholder_witness:
  "sql_tokens ''x::int'' =
     Some (Inr ([\<lparr>kind = Some ''word'', tok_text = ''x'', groups = [], input_range = (0, 1)\<rparr>]
                @ \<lparr>kind = Some ''named parameter prefix'', tok_text = '':'', groups = [],
                    input_range = (1, 2)\<rparr>
                # [] @ \<lparr>kind = Some ''named parameter prefix'', tok_text = '':'', groups = [],
                         input_range = (2, 3)\<rparr>
                # [\<lparr>kind = Some ''word'', tok_text = ''int'', groups = [],
                     input_range = (3, 6)\<rparr>]))
   \<and> replace ''x::int'' [''x'' \<mapsto> PyInt 1] = Some (Inl MalformedPlaceholder)
   \<and> sql_tokens ''a :'' =
     Some (Inr ([\<lparr>kind = Some ''word'', tok_text = ''a'', groups = [], input_range = (0, 1)\<rparr>,
                 \<lparr>kind = Some ''whitespace'', tok_text = '' '', groups = [],
                   input_range = (1, 2)\<rparr>]
                @ \<lparr>kind = Some ''named parameter prefix'', tok_text = '':'', groups = [],
                    input_range = (2, 3)\<rparr> # []))
   \<and> replace ''a :'' [''x'' \<mapsto> PyInt 1] = Some (Inr ''a :'')"
proof -
  let ?x = "\<lparr>kind = Some ''word'', tok_text = ''x'', groups = [], input_range = (0, 1)\<rparr>"
  let ?c1 = "\<lparr>kind = Some ''named parameter prefix'', tok_text = '':'', groups = [],
              input_range = (1, 2)\<rparr>"
  let ?c2 = "\<lparr>kind = Some ''named parameter prefix'', tok_text = '':'', groups = [],
              input_range = (2, 3)\<rparr>"
  let ?int = "\<lparr>kind = Some ''word'', tok_text = ''int'', groups = [], input_range = (3, 6)\<rparr>"
  let ?a = "\<lparr>kind = Some ''word'', tok_text = ''a'', groups = [], input_range = (0, 1)\<rparr>"
  let ?w = "\<lparr>kind = Some ''whitespace'', tok_text = '' '', groups = [], input_range = (1, 2)\<rparr>"
  let ?c3 = "\<lparr>kind = Some ''named parameter prefix'', tok_text = '':'', groups = [],
              input_range = (2, 3)\<rparr>"
  let ?b = "[''x'' \<mapsto> PyInt 1]"
  have t1: "sql_tokens ''x::int'' = Some (Inr ([?x] @ ?c1 # [] @ ?c2 # [?int]))"
    by code_simp
  have h1: "is_prefix ?c1 \<and> list_all is_trivia [] \<and> \<not> is_trivia ?c2 \<and> \<not> is_name ?c2"
    by (simp add: is_prefix_def is_trivia_def is_name_def)
  have p1: "replace_loop [?x] ?b (CHILLIN, [], []) = Inr (CHILLIN, [''x''], [])"
    by (simp add: handle_token_def)
  from malformed_placeholder [where s = "''x::int''" and pre = "[?x]" and p = ?c1
        and mid = "[]" and t = ?c2 and rest = "[?int]" and b = ?b] t1 h1 p1
  have r1: "replace ''x::int'' ?b = Some (Inl MalformedPlaceholder)"
    by simp
  have t2: "sql_tokens ''a :'' = Some (Inr ([?a, ?w] @ ?c3 # []))"
    by code_simp
  have h2: "is_prefix ?c3 \<and> list_all is_trivia []"
    by (simp add: is_prefix_def)
  have p2: "replace_loop [?a, ?w] ?b (CHILLIN, [], []) = Inr (CHILLIN, [''a''], ['' ''])"
    by (simp add: handle_token_def)
  from malformed_placeholder [where s = "''a :''" and pre = "[?a, ?w]" and p = ?c3
        and mid = "[]" and b = ?b and out = "[''a'']" and enq = "['' '']"] t2 h2 p2
  have r2: "replace ''a :'' ?b = Some (Inr ''a :'')"
    by simp
  from t1 r1 t2 r2 show ?thesis by simp
qed

text \<open>
  C10. A quoted-string token met in state \<open>CHILLIN\<close> is flushed as it stands, whatever the
  bindings: the loop of \<open>replace\<close> commits its text after what was pending, so whatever
  \<open>replace\<close> returns for a statement contains each of its quoted-string tokens as
  written. A statement that is one quoted literal (no quote inside) is one
  quoted-string token, whatever stands between the quotes, and \<open>replace\<close> returns it
  unchanged.
\<close>

theorem quoted_string_passes_through:
  "(kind t = Some ''quoted string'' \<longrightarrow>
      handle_token t CHILLIN b = Inr (FLUSH, tok_text t, CHILLIN)
      \<and> replace_loop (t # rest) b (CHILLIN, out, enq) =
          replace_loop rest b (CHILLIN, out @ enq @ [tok_text t], [])
      \<and> (sql_tokens s = Some (Inr (pre @ t # rest)) \<and> replace s b = Some (Inr r) \<longrightarrow>
           (\<exists>before after. r = before @ tok_text t @ after)))
   \<and> (squote \<notin> set body \<longrightarrow>
      sql_tokens (squote # body @ [squote]) =
        Some (Inr [\<lparr>kind = Some ''quoted string'', tok_text = squote # body @ [squote],
                    groups = [], input_range = (0, length body + 2)\<rparr>])
      \<and> replace (squote # body @ [squote]) b = Some (Inr (squote # body @ [squote])))"
proof (intro conjI impI)
  assume k: "kind t = Some ''quoted string''"
  then show h: "handle_token t CHILLIN b = Inr (FLUSH, tok_text t, CHILLIN)"
    by (simp add: handle_token_def)
  then show "replace_loop (t # rest) b (CHILLIN, out, enq) =
          replace_loop rest b (CHILLIN, out @ enq @ [tok_text t], [])"
    by simp
  assume "sql_tokens s = Some (Inr (pre @ t # rest)) \<and> replace s b = Some (Inr r)"
  then have "sql_tokens s = Some (Inr (pre @ t # rest))" "replace s b = Some (Inr r)"
    by simp_all
  from replace_keeps_quoted_string [OF this(1) k this(2)]
  show "\<exists>before after. r = before @ tok_text t @ after" .
next
  assume "squote \<notin> set body"
  then show tk: "sql_tokens (squote # body @ [squote]) =
        Some (Inr [\<lparr>kind = Some ''quoted string'', tok_text = squote # body @ [squote],
                    groups = [], input_range = (0, length body + 2)\<rparr>])"
    by (rule sql_tokens_quoted_string)
  then show "replace (squote # body @ [squote]) b = Some (Inr (squote # body @ [squote]))"
    by (simp add: replace_def handle_token_def)
qed

theorem quoted_string_witness:
  "kind \<lparr>kind = Some ''quoted string'', tok_text = squote # '':name'' @ [squote], groups = [],
         input_range = (0, length '':name'' + 2)\<rparr> = Some ''quoted string''
   \<and> squote \<notin> set '':name''
   \<and> sql_tokens (squote # '':name'' @ [squote]) =
        Some (Inr ([] @ \<lparr>kind = Some ''quoted string'', tok_text = squote # '':name'' @ [squote],
                          groups = [], input_range = (0, length '':name'' + 2)\<rparr> # []))
   \<and> replace (squote # '':name'' @ [squote]) [''name'' \<mapsto> PyInt 1]
       = Some (Inr (squote # '':name'' @ [squote]))
   \<and> (\<exists>before after. squote # '':name'' @ [squote]
          = before @ (squote # '':name'' @ [squote]) @ after)
   \<and> handle_token \<lparr>kind = Some ''quoted string'', tok_text = squote # '':name'' @ [squote],
         groups = [], input_range = (0, length '':name'' + 2)\<rparr> CHILLIN [''name'' \<mapsto> PyInt 1]
       = Inr (FLUSH, squote # '':name'' @ [squote], CHILLIN)"
proof -
  let ?t = "\<lparr>kind = Some ''quoted string'', tok_text = squote # '':name'' @ [squote],
             groups = [], input_range = (0, length '':name'' + 2)\<rparr>"
  let ?b = "[''name'' \<mapsto> PyInt 1]"
  let ?s = "squote # '':name'' @ [squote]"
  have h: "squote \<notin> set '':name''" by (simp add: squote_def)
  have k: "kind ?t = Some ''quoted string''" by simp
  note q = quoted_string_passes_through
    [where t = ?t and b = ?b and body = "'':name''" and rest = "[]" and out = "[]"
       and enq = "[]" and s = ?s and pre = "[]" and r = ?s]
  from q h have tk: "sql_tokens ?s = Some (Inr ([] @ ?t # []))"
    and rp: "replace ?s ?b = Some (Inr ?s)"
    by simp_all
  from q k tk rp have ex: "\<exists>before after. ?s = before @ tok_text ?t @ after"
    and ht: "handle_token ?t CHILLIN ?b = Inr (FLUSH, tok_text ?t, CHILLIN)"
    by blast+
  from h k tk rp ex ht show ?thesis by simp
qed

end
